theory Spec2Isabelle
  imports Complex_Main
begin

section \<open>Summation-by-parts operators: the data model\<close>

text \<open>
  The repository builds finite-difference matrices with NumPy/SciPy. A vector is a
  list of numbers and a matrix is the list of its rows. Every Python float literal
  is read as the real number it denotes and \<open>+\<close>, \<open>-\<close>, \<open>*\<close>, \<open>/\<close> are the exact
  operations on \<open>real\<close>: rounding is not part of the model. A sparse
  \<open>csc_matrix\<close> is represented by the dense matrix it stands for.

  The exceptions the code can raise are values of \<open>error\<close>; a function that may raise
  returns \<open>error + 'a\<close> with \<open>Inl\<close> for the exception.
\<close>

datatype error = NotImplementedError | IndexError | ValueError | ZeroDivisionError | LinAlgError

type_synonym vec = "real list"
type_synonym mat = "real list list"

definition ebind :: "error + 'a \<Rightarrow> ('a \<Rightarrow> error + 'b) \<Rightarrow> error + 'b" where
  "ebind x f = (case x of Inl e \<Rightarrow> Inl e | Inr a \<Rightarrow> f a)"

subsection \<open>NumPy primitives\<close>

text \<open>\<open>np.zeros(m)\<close>: a negative length raises \<open>ValueError\<close>.\<close>

definition zeros :: "int \<Rightarrow> error + vec" where
  "zeros m = (if m < 0 then Inl ValueError else Inr (replicate (nat m) 0))"

text \<open>\<open>np.ones(m)\<close>, with the same check.\<close>

definition ones :: "int \<Rightarrow> error + vec" where
  "ones m = (if m < 0 then Inl ValueError else Inr (replicate (nat m) 1))"

text \<open>
  Indexing \<open>v[i]\<close>: a negative index counts from the end, and an index outside
  \<open>-len(v) .. len(v)-1\<close> raises \<open>IndexError\<close>.
\<close>

definition getitem :: "vec \<Rightarrow> int \<Rightarrow> error + real" where
  "getitem v i =
     (let n = int (length v); j = (if i < 0 then n + i else i)
      in if 0 \<le> j \<and> j < n then Inr (v ! nat j) else Inl IndexError)"

definition setitem :: "vec \<Rightarrow> int \<Rightarrow> real \<Rightarrow> error + vec" where
  "setitem v i x =
     (let n = int (length v); j = (if i < 0 then n + i else i)
      in if 0 \<le> j \<and> j < n then Inr (v[nat j := x]) else Inl IndexError)"

text \<open>
  \<open>for i in range(n): s = body(i, s)\<close>: the first \<open>n\<close> iterations are the first
  \<open>n - 1\<close> followed by the iteration with \<open>i = n - 1\<close>; an exception ends the loop.
\<close>

fun for_range :: "nat \<Rightarrow> (int \<Rightarrow> 's \<Rightarrow> error + 's) \<Rightarrow> 's \<Rightarrow> error + 's" where
  "for_range 0 body s = Inr s"
| "for_range (Suc n) body s = ebind (for_range n body s) (body (int n))"

text \<open>\<open>np.flip(v)\<close> and \<open>np.roll(v, 1)\<close> (every entry moves one place to the right, the last one to the front).\<close>

definition flip :: "vec \<Rightarrow> vec" where
  "flip v = rev v"

definition roll1 :: "vec \<Rightarrow> vec" where
  "roll1 v = (if v = [] then [] else last v # butlast v)"

text \<open>
  \<open>scipy.linalg.toeplitz(c, r)\<close>: first column \<open>c\<close>, first row \<open>r\<close> (whose first
  entry is ignored); entry \<open>(i, j)\<close> is \<open>c[i - j]\<close> on and below the diagonal and
  \<open>r[j - i]\<close> above it.
\<close>

definition toeplitz :: "vec \<Rightarrow> vec \<Rightarrow> mat" where
  "toeplitz c r =
     map (\<lambda>i. map (\<lambda>j. if j \<le> i then c ! (i - j) else r ! (j - i)) [0..<length r])
       [0..<length c]"

text \<open>\<open>np.eye(n)\<close>, \<open>np.diag(c)\<close> of a vector, and the elementwise and linear-algebra operations.\<close>

definition eye :: "nat \<Rightarrow> mat" where
  "eye n = map (\<lambda>i. map (\<lambda>j. if i = j then 1 else 0) [0..<n]) [0..<n]"

definition diag :: "vec \<Rightarrow> mat" where
  "diag c = map (\<lambda>i. map (\<lambda>j. if i = j then c ! i else 0) [0..<length c]) [0..<length c]"

definition zero_mat :: "nat \<Rightarrow> mat" where
  "zero_mat n = replicate n (replicate n 0)"

definition smult :: "real \<Rightarrow> mat \<Rightarrow> mat" where
  "smult a A = map (map ((*) a)) A"

definition madd :: "mat \<Rightarrow> mat \<Rightarrow> mat" where
  "madd A B = map2 (map2 (+)) A B"

definition msub :: "mat \<Rightarrow> mat \<Rightarrow> mat" where
  "msub A B = map2 (map2 (-)) A B"

definition ncols :: "mat \<Rightarrow> nat" where
  "ncols A = (case A of [] \<Rightarrow> 0 | row # _ \<Rightarrow> length row)"

definition mtranspose :: "mat \<Rightarrow> mat" where
  "mtranspose A = map (\<lambda>j. map (\<lambda>row. row ! j) A) [0..<ncols A]"

definition mmul :: "mat \<Rightarrow> mat \<Rightarrow> mat" where
  "mmul A B =
     map (\<lambda>row. map (\<lambda>j. (\<Sum>k\<leftarrow>[0..<length B]. row ! k * B ! k ! j)) [0..<ncols B]) A"


definition is_mat :: "nat \<Rightarrow> mat \<Rightarrow> bool" where
  "is_mat n A \<longleftrightarrow> length A = n \<and> list_all (\<lambda>row. length row = n) A"

section \<open>periodic.py\<close>

subsection \<open>The circulant assembly\<close>

text \<open>
  Every periodic builder contains the same block (lines 66-72, 109-115, 156-162,
  169-175 and 183-189 of \<open>periodic.py\<close>):
  \<^verbatim>\<open>
    v = np.zeros(m)
    for i in range(r+1):
        v[i] = d[i+l]
    for i in range(l):
        v[m-i-1] = d[l-i-1]
    ... splg.toeplitz(np.roll(np.flip(v),1),v)
  \<close>
  \<open>stencil_vector\<close> is the part that fills \<open>v\<close> and \<open>circulant\<close> the Toeplitz
  matrix made from it. In \<open>v[i] = d[i+l]\<close> the right-hand side is read before the
  store.
\<close>

definition stencil_vector :: "int \<Rightarrow> vec \<Rightarrow> int \<Rightarrow> int \<Rightarrow> error + vec" where
  "stencil_vector m d l r =
     ebind (zeros m) (\<lambda>v0.
     ebind (for_range (nat (r + 1))
              (\<lambda>i v. ebind (getitem d (i + l)) (\<lambda>x. setitem v i x)) v0) (\<lambda>v1.
     for_range (nat l)
              (\<lambda>i v. ebind (getitem d (l - i - 1)) (\<lambda>x. setitem v (m - i - 1) x)) v1))"

definition circulant :: "vec \<Rightarrow> mat" where
  "circulant v = toeplitz (roll1 (flip v)) v"

text \<open>
  The contract of the assembly in the specification's words: row \<open>i\<close> is the stencil
  centered at index \<open>i\<close>, indices wrapping modulo \<open>m\<close>. The stencil \<open>d\<close> of
  half-width \<open>l\<close> gives the weight \<open>d[l + q]\<close> to the offset \<open>q\<close>, \<open>-l \<le> q \<le> l\<close>;
  entry \<open>(i, j)\<close> of the wrapped matrix collects the weights of the offsets that are
  \<open>j - i\<close> modulo \<open>m\<close>.
\<close>

definition periodic_weight :: "vec \<Rightarrow> int \<Rightarrow> int \<Rightarrow> nat \<Rightarrow> nat \<Rightarrow> real" where
  "periodic_weight d l m i j =
     (\<Sum>q\<leftarrow>[- l..l]. if (int j - int i - q) mod m = 0 then d ! nat (l + q) else 0)"

subsection \<open>The explicit builder\<close>

text \<open>The first \<open>if\<close>/\<open>elif\<close> chain of \<open>periodic_expl\<close>: the stencil \<open>d\<close> and its half-widths \<open>l\<close>, \<open>r\<close>.\<close>

definition expl_stencil :: "int \<Rightarrow> error + (vec \<times> int \<times> int)" where
  "expl_stencil order =
     (if order = 2 then Inr ([-0.5, 0, 0.5], 1, 1)
      else if order = 4 then Inr ([1/12, -2/3, 0, 2/3, -1/12], 2, 2)
      else if order = 6 then Inr ([-1/60, 3/20, -3/4, 0, 3/4, -3/20, 1/60], 3, 3)
      else if order = 8 then
        Inr ([1/280, -4/105, 1/5, -4/5, 0, 4/5, -1/5, 4/105, -1/280], 4, 4)
      else if order = 10 then
        Inr ([-1/1260, 5/504, -5/84, 5/21, -5/6, 0, 5/6, -5/21, 5/84, -5/504, 1/1260], 5, 5)
      else if order = 12 then
        Inr ([1/5544, -1/385, 1/56, -5/63, 15/56, -6/7, 0,
              6/7, -15/56, 5/63, -1/56, 1/385, -1/5544], 6, 6)
      else Inl NotImplementedError)"

text \<open>The second chain, under \<open>if use_AD\<close>: the dissipation stencil, its half-widths and the scale \<open>a\<close>.\<close>

definition expl_dissipation :: "int \<Rightarrow> error + (vec \<times> int \<times> int \<times> real)" where
  "expl_dissipation order =
     (if order = 2 then Inr ([1, -2, 1], 1, 1, 0.5)
      else if order = 4 then Inr (map uminus [1, -4, 6, -4, 1], 2, 2, 1/12)
      else if order = 6 then Inr ([1, -6, 15, -20, 15, -6, 1], 3, 3, 1/60)
      else if order = 8 then
        Inr (map uminus [1, -8, 28, -56, 70, -56, 28, -8, 1], 4, 4, 1/280)
      else if order = 10 then
        Inr ([1, -10, 45, -120, 210, -252, 210, -120, 45, -10, 1], 5, 5, 1/1260)
      else if order = 12 then
        Inr (map uminus [1, -12, 66, -220, 495, -792, 924, -792, 495, -220, 66, -12, 1],
             6, 6, 1/5544)
      else Inl NotImplementedError)"

text \<open>
  \<open>periodic_expl(m, h, order, use_AD)\<close> returns the pair \<open>(H, Q)\<close>. \<open>np.eye(m)\<close> is
  reached only after \<open>np.zeros(m)\<close> has accepted \<open>m\<close>.
\<close>

definition periodic_expl :: "int \<Rightarrow> real \<Rightarrow> int \<Rightarrow> bool \<Rightarrow> error + (mat \<times> mat)" where
  "periodic_expl m h order use_AD =
     ebind (expl_stencil order) (\<lambda>(d, l, r).
     ebind (stencil_vector m d l r) (\<lambda>v.
       let Q = circulant v;
           H = smult h (eye (nat m))
       in if use_AD then
            ebind (expl_dissipation order) (\<lambda>(d, l, r, a).
            ebind (stencil_vector m d l r) (\<lambda>v.
              let S = smult a (circulant v) in Inr (H, msub Q S)))
          else Inr (H, Q)))"

text \<open>The half-width \<open>l\<close> that \<open>periodic_expl\<close> selects for an order (0 for an unsupported order).\<close>

definition half_width :: "int \<Rightarrow> int" where
  "half_width order = (case expl_stencil order of Inr (d, l, r) \<Rightarrow> l | Inl e \<Rightarrow> 0)"

subsection \<open>The implicit builder\<close>

text \<open>The rational constants of \<open>periodic_imp\<close>, as written in the source.\<close>

definition h0 :: real where
  "h0 = 4203267613564094932432577824954 / 7049220443079284250976145948443"

definition h1 :: real where
  "h1 = 22618790744689935699264926210401 / 84590645316951411011713751381316"

definition h2 :: real where
  "h2 = - 2209778222820418388602425303685 / 42295322658475705505856875690658"

definition h3 :: real where
  "h3 = - 1581945765 / 75409415044"

definition h4 :: real where
  "h4 = 228992488 / 33235651987"

definition h5 :: real where
  "h5 = 27214243 / 33751459947"

definition q1 :: real where
  "q1 = 9607266784889201296177 / 19560081711822931675052"

definition q2 :: real where
  "q2 = 8866705546306148289391 / 97800408559114658375260"

definition q3 :: real where
  "q3 = - 19659090145677941034997 / 293401225677343975125780"

definition q4 :: real where
  "q4 = 127051314 / 37983174851"

definition q5 :: real where
  "q5 = 389910724 / 128741750713"

definition imp_Q_stencil :: vec where
  "imp_Q_stencil = [- q5, - q4, - q3, - q2, - q1, 0, q1, q2, q3, q4, q5]"

definition imp_H_stencil :: vec where
  "imp_H_stencil = [h5, h4, h3, h2, h1, h0, h1, h2, h3, h4, h5]"

definition imp_dissipation :: vec where
  "imp_dissipation =
     map uminus [1, -12, 66, -220, 495, -792, 924, -792, 495, -220, 66, -12, 1]"

text \<open>\<open>periodic_imp(m, h, use_AD)\<close>: \<open>Q\<close> is assembled first, then \<open>H\<close>, then the dissipation.\<close>

definition periodic_imp :: "int \<Rightarrow> real \<Rightarrow> bool \<Rightarrow> error + (mat \<times> mat)" where
  "periodic_imp m h use_AD =
     ebind (stencil_vector m imp_Q_stencil 5 5) (\<lambda>v.
       let Q = circulant v
       in ebind (stencil_vector m imp_H_stencil 5 5) (\<lambda>v.
            let H = smult h (circulant v)
            in if use_AD then
                 ebind (stencil_vector m imp_dissipation 6 6) (\<lambda>v.
                   let S = smult (1/5544) (circulant v) in Inr (H, msub Q S))
               else Inr (H, Q)))"

subsection \<open>The variable-coefficient second derivative\<close>

text \<open>
  The closure \<open>M_fun\<close> of \<open>periodic_variable_wide\<close>, with the captured \<open>h\<close> and
  \<open>Q\<close> as parameters. Python reads \<open>-1/h*Q@C@Q\<close> from the left:
  \<open>(((-1)/h * Q) @ C) @ Q\<close>. The division raises \<open>ZeroDivisionError\<close> for \<open>h = 0\<close>,
  and the product \<open>Q @ C\<close> raises \<open>ValueError\<close> unless \<open>c\<close> has as many entries
  as \<open>Q\<close> has columns.
\<close>

definition M_fun :: "real \<Rightarrow> mat \<Rightarrow> vec \<Rightarrow> error + mat" where
  "M_fun h Q c =
     (let C = diag c
      in if h = 0 then Inl ZeroDivisionError
         else if ncols Q \<noteq> length C then Inl ValueError
         else Inr (mmul (mmul (smult ((-1) / h) Q) C) Q))"

definition periodic_variable_wide :: "int \<Rightarrow> real \<Rightarrow> int \<Rightarrow> error + (vec \<Rightarrow> error + mat)" where
  "periodic_variable_wide m h order =
     ebind (periodic_expl m h order False) (\<lambda>(H, Q). Inr (M_fun h Q))"

section \<open>upwind.py\<close>

subsection \<open>More NumPy\<close>

text \<open>
  \<open>np.diag(v, k)\<close> of a vector: the square matrix of size \<open>len(v) + |k|\<close> with \<open>v\<close> on
  the \<open>k\<close>-th diagonal (entries \<open>(i, i + k)\<close>).
\<close>

definition diag_k :: "vec \<Rightarrow> int \<Rightarrow> mat" where
  "diag_k v k =
     (let n = length v + nat \<bar>k\<bar>
      in map (\<lambda>i. map (\<lambda>j. if int j - int i = k then v ! min i j else 0) [0..<n]) [0..<n])"

definition outer :: "vec \<Rightarrow> vec \<Rightarrow> mat" where
  "outer x y = map (\<lambda>a. map (\<lambda>b. a * b) y) x"

definition mneg :: "mat \<Rightarrow> mat" where
  "mneg A = map (map uminus) A"

definition fliplr :: "mat \<Rightarrow> mat" where
  "fliplr A = map rev A"

definition flipud :: "mat \<Rightarrow> mat" where
  "flipud A = rev A"

text \<open>
  The slices \<open>A[0:b,0:b]\<close> (also written \<open>A[:b,:b]\<close>) and \<open>A[-b:,-b:]\<close>. Reading a
  slice never raises: it is clipped to the matrix. Storing \<open>B\<close> into a slice raises
  \<open>ValueError\<close> unless the clipped slice has the shape of \<open>B\<close> (every \<open>B\<close> stored
  here has more than one row and column, so NumPy cannot broadcast it).
\<close>

definition get_leading :: "nat \<Rightarrow> mat \<Rightarrow> mat" where
  "get_leading b A = map (take b) (take b A)"

definition set_leading :: "nat \<Rightarrow> mat \<Rightarrow> mat \<Rightarrow> error + mat" where
  "set_leading b A B =
     (if length B = min b (length A) \<and> ncols B = min b (ncols A) then
        Inr (map (\<lambda>i. map (\<lambda>j. if i < b \<and> j < b then B ! i ! j else A ! i ! j)
                       [0..<ncols A]) [0..<length A])
      else Inl ValueError)"

definition set_trailing :: "nat \<Rightarrow> mat \<Rightarrow> mat \<Rightarrow> error + mat" where
  "set_trailing b A B =
     (if length B = min b (length A) \<and> ncols B = min b (ncols A) then
        Inr (map (\<lambda>i. map (\<lambda>j. if length A - b \<le> i \<and> ncols A - b \<le> j
                                 then B ! (i - (length A - b)) ! (j - (ncols A - b))
                                 else A ! i ! j)
                       [0..<ncols A]) [0..<length A])
      else Inl ValueError)"

text \<open>
  \<open>np.linalg.inv(H)\<close>. The builders call it on the norm matrix \<open>H\<close> only, which is
  diagonal; the inverse of a diagonal matrix is the diagonal matrix of the
  reciprocals, and NumPy raises \<open>LinAlgError\<close> when the matrix is singular, here when
  a diagonal entry is zero. The definition is this inverse of the diagonal part.
\<close>

definition linalg_inv :: "mat \<Rightarrow> error + mat" where
  "linalg_inv A =
     (if \<exists>i \<in> set [0..<length A]. A ! i ! i = 0 then Inl LinAlgError
      else Inr (map (\<lambda>i. map (\<lambda>j. if i = j then 1 / (A ! i ! i) else 0) [0..<length A])
                  [0..<length A]))"

subsection \<open>The constant tables\<close>

text \<open>
  The boundary weights of \<open>H\<close> and the boundary blocks \<open>Qu\<close> of the three builders.
  A literal such as \<open>0.847e3/0.37560e5\<close> is written \<open>847 / 37560\<close>.
\<close>

definition H_bnd_3rd :: vec where
  "H_bnd_3rd =
     [4347899357 / 12695947216,
      12032349023 / 9521960412,
      32831414215 / 38087841648,
      6550489565 / 6347973608]"

definition H_bnd_5th :: vec where
  "H_bnd_5th =
     [251 / 720,
      299 / 240,
      211 / 240,
      739 / 720]"

definition H_bnd_7th :: vec where
  "H_bnd_7th =
     [19087 / 60480,
      84199 / 60480,
      18869 / 30240,
      37621 / 30240,
      55031 / 60480,
      61343 / 60480]"

definition Qu_3rd :: mat where
  "Qu_3rd =
     [[- 847 / 37560, 79604458492699 / 119214944358240, - 1643521867663 / 14901868044780, - 4160444549287 / 119214944358240],
      [- 22671019561497 / 39738314786080, - 6023 / 37560, 91628011326497 / 119214944358240, - 749671686919 / 19869157393040],
      [63495586071 / 1241822337065, - 16644840223051 / 39738314786080, - 4311 / 12520, 104757273135509 / 119214944358240],
      [4998377065543 / 119214944358240, - 5276507651527 / 59607472179120, - 12476888349687 / 39738314786080, - 5919 / 12520]]"

definition Qu_5th :: mat where
  "Qu_5th =
     [[- 1 / 120, 941 / 1440, - 47 / 360, - 7 / 480],
      [- 869 / 1440, - 11 / 120, 25 / 32, - 43 / 360],
      [29 / 360, - 17 / 32, - 29 / 120, 1309 / 1440],
      [1 / 32, - 11 / 360, - 661 / 1440, - 13 / 40]]"

definition Qu_7th :: mat where
  "Qu_7th =
     [[- 265 / 300272, 1587945773 / 2432203200, - 1926361 / 25737600, - 84398989 / 810734400, 48781961 / 4864406400, 3429119 / 202683600],
      [- 1570125773 / 2432203200, - 26517 / 1501360, 240029831 / 486440640, 202934303 / 972881280, 118207 / 13512240, - 231357719 / 4864406400],
      [1626361 / 25737600, - 206937767 / 486440640, - 61067 / 750680, 49602727 / 81073440, - 43783933 / 194576256, 51815011 / 810734400],
      [91418989 / 810734400, - 53314099 / 194576256, - 33094279 / 81073440, - 18269 / 107240, 440626231 / 486440640, - 365711063 / 1621468800],
      [- 62551961 / 4864406400, 799 / 35280, 82588241 / 972881280, - 279245719 / 486440640, - 346583 / 1501360, 2312302333 / 2432203200],
      [- 3375119 / 202683600, 202087559 / 4864406400, - 11297731 / 810734400, 61008503 / 1621468800, - 1360092253 / 2432203200, - 10677 / 42896]]"

text \<open>The banded interior matrices, before the boundary blocks are stored.\<close>

definition interior_3rd :: "int \<Rightarrow> error + mat" where
  "interior_3rd m =
     ebind (ones (m - 1)) (\<lambda>o1.
     ebind (ones m) (\<lambda>o2.
     ebind (ones (m - 1)) (\<lambda>o3.
     ebind (ones (m - 2)) (\<lambda>o4.
       Inr (msub (madd (msub (smult ((-1) / 3) (diag_k o1 (-1)))
                             (smult (1 / 2) (diag_k o2 0)))
                       (smult 1 (diag_k o3 1)))
                 (smult (1 / 6) (diag_k o4 2)))))))"

definition interior_5th :: "int \<Rightarrow> error + mat" where
  "interior_5th m =
     ebind (ones (m - 2)) (\<lambda>o1.
     ebind (ones (m - 1)) (\<lambda>o2.
     ebind (ones m) (\<lambda>o3.
     ebind (ones (m - 1)) (\<lambda>o4.
     ebind (ones (m - 2)) (\<lambda>o5.
     ebind (ones (m - 3)) (\<lambda>o6.
       Inr (madd (msub (madd (msub (msub (smult (1 / 20) (diag_k o1 (-2)))
                                         (smult (1 / 2) (diag_k o2 (-1))))
                                   (smult (1 / 3) (diag_k o3 0)))
                             (diag_k o4 1))
                       (smult (1 / 4) (diag_k o5 2)))
                 (smult (1 / 30) (diag_k o6 3)))))))))"

definition interior_7th :: "int \<Rightarrow> error + mat" where
  "interior_7th m =
     ebind (ones (m - 3)) (\<lambda>o1.
     ebind (ones (m - 2)) (\<lambda>o2.
     ebind (ones (m - 1)) (\<lambda>o3.
     ebind (ones m) (\<lambda>o4.
     ebind (ones (m - 1)) (\<lambda>o5.
     ebind (ones (m - 2)) (\<lambda>o6.
     ebind (ones (m - 3)) (\<lambda>o7.
     ebind (ones (m - 4)) (\<lambda>o8.
       Inr (msub (madd (msub (madd (msub (msub (madd (smult ((-1) / 105) (diag_k o1 (-3)))
                                                     (smult (1 / 10) (diag_k o2 (-2))))
                                               (smult (3 / 5) (diag_k o3 (-1))))
                                         (smult (1 / 4) (diag_k o4 0)))
                                   (diag_k o5 1))
                             (smult (3 / 10) (diag_k o6 2)))
                       (smult (1 / 15) (diag_k o7 3)))
                 (smult (1 / 140) (diag_k o8 4)))))))))))"

subsection \<open>The builders\<close>

text \<open>
  The three builders run the same statements on different tables. \<open>upwind_locals\<close>
  holds the local variables at the \<open>return\<close>; the builder returns
  \<open>H, HI, Dp, Dm, e_l, e_r\<close>.
\<close>

record upwind_locals =
  u_e_l :: vec
  u_e_r :: vec
  u_H :: mat
  u_HI :: mat
  u_Qp :: mat
  u_Qm :: mat
  u_Dp :: mat
  u_Dm :: mat

definition upwind_body :: "vec \<Rightarrow> (int \<Rightarrow> error + mat) \<Rightarrow> mat \<Rightarrow> int \<Rightarrow> real \<Rightarrow> error + upwind_locals" where
  "upwind_body Hb interior Qu m h =
     (let b = length Hb in
     ebind (zeros m) (\<lambda>e_l.
     ebind (setitem e_l 0 1) (\<lambda>e_l.
     ebind (zeros m) (\<lambda>e_r.
     ebind (setitem e_r (-1) 1) (\<lambda>e_r.
     ebind (ones m) (\<lambda>w.
     ebind (set_leading b (diag w) (diag Hb)) (\<lambda>H.
     ebind (set_trailing b H (fliplr (flipud (get_leading b H)))) (\<lambda>H.
       let H = smult h H
       in ebind (linalg_inv H) (\<lambda>HI.
          ebind (interior m) (\<lambda>Qp.
          ebind (set_leading b Qp Qu) (\<lambda>Qp.
          ebind (set_trailing b Qp (mtranspose (flipud (fliplr Qu)))) (\<lambda>Qp.
            let Qm = mneg (mtranspose Qp);
                Dp = mmul HI (madd (msub Qp (smult 0.5 (outer e_l e_l)))
                                   (smult 0.5 (outer e_r e_r)));
                Dm = mmul HI (madd (msub Qm (smult 0.5 (outer e_l e_l)))
                                   (smult 0.5 (outer e_r e_r)))
            in Inr \<lparr>u_e_l = e_l, u_e_r = e_r, u_H = H, u_HI = HI,
                     u_Qp = Qp, u_Qm = Qm, u_Dp = Dp, u_Dm = Dm\<rparr>))))))))))))"

definition upwind_return :: "upwind_locals \<Rightarrow> mat \<times> mat \<times> mat \<times> mat \<times> vec \<times> vec" where
  "upwind_return s = (u_H s, u_HI s, u_Dp s, u_Dm s, u_e_l s, u_e_r s)"

definition sbp_upwind_3rd :: "int \<Rightarrow> real \<Rightarrow> error + (mat \<times> mat \<times> mat \<times> mat \<times> vec \<times> vec)" where
  "sbp_upwind_3rd m h = map_sum id upwind_return (upwind_body H_bnd_3rd interior_3rd Qu_3rd m h)"

definition sbp_upwind_5th :: "int \<Rightarrow> real \<Rightarrow> error + (mat \<times> mat \<times> mat \<times> mat \<times> vec \<times> vec)" where
  "sbp_upwind_5th m h = map_sum id upwind_return (upwind_body H_bnd_5th interior_5th Qu_5th m h)"

definition sbp_upwind_7th :: "int \<Rightarrow> real \<Rightarrow> error + (mat \<times> mat \<times> mat \<times> mat \<times> vec \<times> vec)" where
  "sbp_upwind_7th m h = map_sum id upwind_return (upwind_body H_bnd_7th interior_7th Qu_7th m h)"

subsection \<open>The summation-by-parts identities of the upwind operators\<close>

text \<open>
  The identity as the specification states it, \<open>Qp + Qp\<^sup>T = e_r e_r\<^sup>T - e_l e_l\<^sup>T\<close>, and
  the identity between the two matrices that the builders multiply by \<open>HI\<close>,
  \<open>Qp - e_l e_l\<^sup>T / 2 + e_r e_r\<^sup>T / 2\<close> and \<open>Qm - e_l e_l\<^sup>T / 2 + e_r e_r\<^sup>T / 2\<close>,
  both as predicates on the local variables of a builder.
\<close>

definition boundary_form :: "upwind_locals \<Rightarrow> mat" where
  "boundary_form s = msub (outer (u_e_r s) (u_e_r s)) (outer (u_e_l s) (u_e_l s))"

definition sbp_identity_Qp :: "upwind_locals \<Rightarrow> bool" where
  "sbp_identity_Qp s \<longleftrightarrow> madd (u_Qp s) (mtranspose (u_Qp s)) = boundary_form s"

definition corrected :: "upwind_locals \<Rightarrow> mat \<Rightarrow> mat" where
  "corrected s Q = madd (msub Q (smult 0.5 (outer (u_e_l s) (u_e_l s))))
                        (smult 0.5 (outer (u_e_r s) (u_e_r s)))"

definition sbp_identity_corrected :: "upwind_locals \<Rightarrow> bool" where
  "sbp_identity_corrected s \<longleftrightarrow>
     madd (corrected s (u_Qp s)) (mtranspose (corrected s (u_Qm s))) = boundary_form s"

subsection \<open>Quadratic forms\<close>

text \<open>
  The quadratic form \<open>x\<^sup>T A x\<close> of a square matrix; \<open>A\<close> is positive definite
  when the form is positive at every vector other than zero. \<open>cyc x\<close> is the
  periodic continuation of a grid function and \<open>autocorr x k\<close> the sum of the
  products of the entries that are \<open>k\<close> grid points apart on the periodic grid.
\<close>

definition quadform :: "mat \<Rightarrow> vec \<Rightarrow> real" where
  "quadform A x = (\<Sum>i<length x. \<Sum>j<length x. x ! i * A ! i ! j * x ! j)"

definition cyc :: "vec \<Rightarrow> nat \<Rightarrow> real" where
  "cyc x i = x ! (i mod length x)"

definition autocorr :: "vec \<Rightarrow> nat \<Rightarrow> real" where
  "autocorr x k = (\<Sum>i<length x. cyc x i * cyc x (i + k))"

section \<open>Basic facts\<close>

lemma ebind_Inl [simp]: "ebind (Inl e) f = Inl e"
  by (simp add: ebind_def)

lemma ebind_Inr [simp]: "ebind (Inr a) f = f a"
  by (simp add: ebind_def)

lemma expl_stencil_error:
  "expl_stencil order = Inl e \<longleftrightarrow> order \<notin> {2, 4, 6, 8, 10, 12} \<and> e = NotImplementedError"
  by (auto simp: expl_stencil_def)

lemma getitem_error: "getitem v i = Inl e \<Longrightarrow> e = IndexError"
  by (auto simp: getitem_def Let_def split: if_splits)

lemma setitem_error: "setitem v i x = Inl e \<Longrightarrow> e = IndexError"
  by (auto simp: setitem_def Let_def split: if_splits)

lemma ebind_Inl_iff: "ebind x f = Inl e \<longleftrightarrow> x = Inl e \<or> (\<exists>a. x = Inr a \<and> f a = Inl e)"
  by (cases x) auto

lemma for_range_error:
  assumes "\<And>i s e. body i s = Inl e \<Longrightarrow> P e"
  shows "for_range n body s = Inl e \<Longrightarrow> P e"
  using assms by (induction n arbitrary: e) (auto simp: ebind_Inl_iff)

lemma fill_body_error:
  "ebind (getitem d j) (\<lambda>x. setitem v k x) = Inl e \<Longrightarrow> e = IndexError"
  by (auto simp: ebind_Inl_iff dest: getitem_error setitem_error)

lemma stencil_vector_error:
  assumes "stencil_vector m d l r = Inl e"
  shows "e = ValueError \<or> e = IndexError"
proof (cases "m < 0")
  case True
  with assms show ?thesis by (simp add: stencil_vector_def zeros_def)
next
  case False
  let ?b1 = "\<lambda>i v. ebind (getitem d (i + l)) (\<lambda>x. setitem v i x)"
  let ?b2 = "\<lambda>i v. ebind (getitem d (l - i - 1)) (\<lambda>x. setitem v (m - i - 1) x)"
  from assms False
  have "for_range (nat (r + 1)) ?b1 (replicate (nat m) 0) = Inl e
      \<or> (\<exists>v1. for_range (nat l) ?b2 v1 = Inl e)"
    by (auto simp: stencil_vector_def zeros_def ebind_Inl_iff)
  then have "e = IndexError"
  proof
    assume "for_range (nat (r + 1)) ?b1 (replicate (nat m) 0) = Inl e"
    then show ?thesis
      by (rule for_range_error[rotated]) (rule fill_body_error)
  next
    assume "\<exists>v1. for_range (nat l) ?b2 v1 = Inl e"
    then obtain v1 where "for_range (nat l) ?b2 v1 = Inl e" ..
    then show ?thesis
      by (rule for_range_error[rotated]) (rule fill_body_error)
  qed
  then show ?thesis ..
qed

lemma expl_dissipation_error:
  "expl_dissipation order = Inl e \<longleftrightarrow> order \<notin> {2, 4, 6, 8, 10, 12} \<and> e = NotImplementedError"
  by (auto simp: expl_dissipation_def)

section \<open>Unsupported orders (C8)\<close>

text \<open>
  Claim C8. \<open>periodic_expl(m, h, order, use_AD)\<close> raises the unsupported-order
  error if and only if \<open>order\<close> is not one of 2, 4, 6, 8, 10, 12, and then returns
  no matrices. The exception the code raises for it is Python's
  \<open>NotImplementedError('Order not implemented.')\<close>; every other failure of the
  builder is a \<open>ValueError\<close> or an \<open>IndexError\<close>. The witness is the call with
  \<open>order = 3\<close>.
\<close>

theorem periodic_expl_unsupported_order:
  "periodic_expl m h order use_AD = Inl NotImplementedError \<longleftrightarrow> order \<notin> {2, 4, 6, 8, 10, 12}"
proof
  assume "order \<notin> {2, 4, 6, 8, 10, 12}"
  then have "expl_stencil order = Inl NotImplementedError"
    by (simp add: expl_stencil_error)
  then show "periodic_expl m h order use_AD = Inl NotImplementedError"
    by (simp add: periodic_expl_def)
next
  assume raised: "periodic_expl m h order use_AD = Inl NotImplementedError"
  show "order \<notin> {2, 4, 6, 8, 10, 12}"
  proof
    assume sup: "order \<in> {2, 4, 6, 8, 10, 12}"
    then obtain d l r where st: "expl_stencil order = Inr (d, l, r)"
      by (cases "expl_stencil order") (auto simp: expl_stencil_error)
    from sup obtain d' l' r' a where di: "expl_dissipation order = Inr (d', l', r', a)"
      by (cases "expl_dissipation order") (auto simp: expl_dissipation_error)
    from raised st di show False
      by (auto simp: periodic_expl_def Let_def ebind_Inl_iff split: if_splits
               dest: stencil_vector_error)
  qed
qed

theorem periodic_expl_unsupported_order_witness:
  "periodic_expl 8 1 3 False = Inl NotImplementedError"
  using periodic_expl_unsupported_order [of 8 1 3 False] by simp

lemma getitem_nat: "k < length v \<Longrightarrow> getitem v (int k) = Inr (v ! k)"
  by (simp add: getitem_def)

lemma setitem_nat: "k < length v \<Longrightarrow> setitem v (int k) x = Inr (v[k := x])"
  by (simp add: setitem_def)

lemma setitem_out: "int (length v) \<le> i \<Longrightarrow> setitem v i x = Inl IndexError"
  by (simp add: setitem_def Let_def)

lemma update_append_replicate:
  "(xs @ replicate (Suc k) z)[length xs := x] = (xs @ [x]) @ replicate k z"
  by (simp add: list_update_append)

text \<open>The first loop, \<open>v[i] = d[i+l]\<close>, copies the right half of the stencil.\<close>

lemma first_loop:
  assumes "n \<le> m" "l + n \<le> length d"
  shows "for_range n (\<lambda>i v. ebind (getitem d (i + int l)) (\<lambda>x. setitem v i x)) (replicate m 0)
         = Inr (take n (drop l d) @ replicate (m - n) 0)"
  using assms
proof (induction n)
  case 0
  then show ?case by simp
next
  case (Suc n)
  let ?v = "take n (drop l d) @ replicate (m - n) 0"
  have len: "length (take n (drop l d)) = n" using Suc.prems by simp
  have rd: "getitem d (int n + int l) = Inr (d ! (l + n))"
    using getitem_nat[of "l + n" d] Suc.prems by (simp add: add.commute)
  have m: "m - n = Suc (m - Suc n)" using Suc.prems by simp
  have "?v[n := d ! (l + n)] = (take n (drop l d) @ [d ! (l + n)]) @ replicate (m - Suc n) 0"
    using update_append_replicate[of "take n (drop l d)" "m - Suc n" 0 "d ! (l + n)"] len m
    by simp
  also have "take n (drop l d) @ [d ! (l + n)] = take (Suc n) (drop l d)"
    using Suc.prems by (simp add: take_Suc_conv_app_nth)
  finally have upd: "?v[n := d ! (l + n)] = take (Suc n) (drop l d) @ replicate (m - Suc n) 0" .
  have "setitem ?v (int n) (d ! (l + n)) = Inr (?v[n := d ! (l + n)])"
    using Suc.prems len by (intro setitem_nat) simp
  with Suc rd upd show ?case by simp
qed

text \<open>The second loop, \<open>v[m-i-1] = d[l-i-1]\<close>, copies the left half to the end.\<close>

lemma second_loop:
  assumes "n \<le> l" "l \<le> length d" "l \<le> length v"
  shows "for_range n (\<lambda>i w. ebind (getitem d (int l - i - 1))
                                    (\<lambda>x. setitem w (int (length v) - i - 1) x)) v
         = Inr (take (length v - n) v @ drop (l - n) (take l d))"
  using assms
proof (induction n)
  case 0
  then show ?case by simp
next
  case (Suc n)
  let ?w = "take (length v - n) v @ drop (l - n) (take l d)"
  have i1: "int l - int n - 1 = int (l - Suc n)" using Suc.prems by simp
  have i2: "int (length v) - int n - 1 = int (length v - Suc n)" using Suc.prems by simp
  have rd: "getitem d (int l - int n - 1) = Inr (d ! (l - Suc n))"
    unfolding i1 using Suc.prems by (intro getitem_nat) simp
  have lw: "length ?w = length v" using Suc.prems by simp
  have st: "setitem ?w (int (length v) - int n - 1) (d ! (l - Suc n))
            = Inr (?w[length v - Suc n := d ! (l - Suc n)])"
    unfolding i2 using Suc.prems lw by (intro setitem_nat) simp
  define k where "k = length v - Suc n"
  have k: "k < length v" "length v - n = Suc k" "length (take k v) = k"
    using Suc.prems by (simp_all add: k_def)
  have t: "take (Suc k) v = take k v @ [v ! k]"
    using k(1) by (rule take_Suc_conv_app_nth)
  have "(take k v @ (v ! k # drop (l - n) (take l d)))[k := d ! (l - Suc n)]
        = take k v @ (d ! (l - Suc n) # drop (l - n) (take l d))"
    using k(3) by (metis list_update_length)
  then have "?w[length v - Suc n := d ! (l - Suc n)]
        = take (length v - Suc n) v @ (d ! (l - Suc n) # drop (l - n) (take l d))"
    unfolding k(2) t unfolding k_def[symmetric] by simp
  also have "d ! (l - Suc n) # drop (l - n) (take l d) = drop (l - Suc n) (take l d)"
  proof -
    have "l - Suc n < length (take l d)" using Suc.prems by simp
    then have "drop (l - Suc n) (take l d) = take l d ! (l - Suc n) # drop (Suc (l - Suc n)) (take l d)"
      by (rule Cons_nth_drop_Suc[symmetric])
    moreover have "Suc (l - Suc n) = l - n" using Suc.prems by simp
    moreover have "take l d ! (l - Suc n) = d ! (l - Suc n)" using Suc.prems by simp
    ultimately show ?thesis by simp
  qed
  finally have upd: "?w[length v - Suc n := d ! (l - Suc n)]
        = take (length v - Suc n) v @ drop (l - Suc n) (take l d)" .
  from Suc rd st upd show ?case by simp
qed

lemma stencil_vector_closed:
  assumes "r < m" "l \<le> m" "length d = l + r + 1"
  shows "stencil_vector (int m) d (int l) (int r)
         = Inr (take (m - l) (drop l d @ replicate (m - Suc r) 0) @ take l d)"
proof -
  let ?v1 = "drop l d @ replicate (m - Suc r) 0"
  have n1: "nat (int r + 1) = Suc r" by simp
  have l1: "for_range (Suc r) (\<lambda>i v. ebind (getitem d (i + int l)) (\<lambda>x. setitem v i x)) (replicate m 0)
            = Inr ?v1"
    using first_loop[of "Suc r" m l d] assms by simp
  have len: "length ?v1 = m" using assms by simp
  have l2: "for_range l (\<lambda>i w. ebind (getitem d (int l - i - 1))
                                    (\<lambda>x. setitem w (int m - i - 1) x)) ?v1
            = Inr (take (m - l) ?v1 @ take l d)"
    using second_loop[of l l d ?v1] assms len by simp
  show ?thesis
    unfolding stencil_vector_def zeros_def n1 using l1 l2 by simp
qed

lemma stencil_vector_fits:
  assumes "l + r < m" "length d = l + r + 1"
  shows "stencil_vector (int m) d (int l) (int r)
         = Inr (drop l d @ replicate (m - Suc (l + r)) 0 @ take l d)"
proof -
  have "take (m - l) (drop l d @ replicate (m - Suc r) 0) = drop l d @ replicate (m - Suc (l + r)) 0"
    using assms by simp
  with stencil_vector_closed[of r m l d] assms show ?thesis by simp
qed

section \<open>Matrices as lists of rows\<close>

lemma is_mat_iff: "is_mat n A \<longleftrightarrow> length A = n \<and> (\<forall>i<n. length (A ! i) = n)"
  by (auto simp: is_mat_def list_all_length)

lemma is_matI: "length A = n \<Longrightarrow> (\<And>i. i < n \<Longrightarrow> length (A ! i) = n) \<Longrightarrow> is_mat n A"
  by (simp add: is_mat_iff)

lemma is_mat_length: "is_mat n A \<Longrightarrow> length A = n"
  by (simp add: is_mat_iff)

lemma is_mat_row: "is_mat n A \<Longrightarrow> i < n \<Longrightarrow> length (A ! i) = n"
  by (simp add: is_mat_iff)

lemma is_mat_ncols: "is_mat n A \<Longrightarrow> ncols A = n"
  by (cases A) (auto simp: is_mat_def ncols_def)

lemma mat_eqI:
  assumes "is_mat n A" "is_mat n B" "\<And>i j. i < n \<Longrightarrow> j < n \<Longrightarrow> A ! i ! j = B ! i ! j"
  shows "A = B"
proof (rule nth_equalityI)
  show "length A = length B" using assms by (simp add: is_mat_iff)
next
  fix i assume "i < length A"
  then have i: "i < n" using assms(1) by (simp add: is_mat_iff)
  show "A ! i = B ! i"
  proof (rule nth_equalityI)
    show "length (A ! i) = length (B ! i)" using assms i by (simp add: is_mat_iff)
  next
    fix j assume "j < length (A ! i)"
    then have "j < n" using assms(1) i by (simp add: is_mat_iff)
    with i show "A ! i ! j = B ! i ! j" by (rule assms(3))
  qed
qed

lemma is_mat_madd: "is_mat n A \<Longrightarrow> is_mat n B \<Longrightarrow> is_mat n (madd A B)"
  by (simp add: is_mat_iff madd_def)

lemma is_mat_msub: "is_mat n A \<Longrightarrow> is_mat n B \<Longrightarrow> is_mat n (msub A B)"
  by (simp add: is_mat_iff msub_def)

lemma is_mat_smult: "is_mat n A \<Longrightarrow> is_mat n (smult a A)"
  by (simp add: is_mat_iff smult_def)

lemma is_mat_mtranspose:
  assumes "is_mat n A"
  shows "is_mat n (mtranspose A)"
proof -
  have "ncols A = n" using assms by (rule is_mat_ncols)
  moreover have "length A = n" using assms by (rule is_mat_length)
  ultimately show ?thesis by (simp add: is_mat_iff mtranspose_def)
qed

lemma is_mat_eye: "is_mat n (eye n)"
  by (simp add: is_mat_iff eye_def)

lemma is_mat_diag: "is_mat (length c) (diag c)"
  by (simp add: is_mat_iff diag_def)

lemma is_mat_zero_mat: "is_mat n (zero_mat n)"
  by (simp add: is_mat_iff zero_mat_def)

lemma madd_nth: "is_mat n A \<Longrightarrow> is_mat n B \<Longrightarrow> i < n \<Longrightarrow> j < n \<Longrightarrow>
    madd A B ! i ! j = A ! i ! j + B ! i ! j"
  by (simp add: is_mat_iff madd_def)

lemma msub_nth: "is_mat n A \<Longrightarrow> is_mat n B \<Longrightarrow> i < n \<Longrightarrow> j < n \<Longrightarrow>
    msub A B ! i ! j = A ! i ! j - B ! i ! j"
  by (simp add: is_mat_iff msub_def)

lemma smult_nth: "is_mat n A \<Longrightarrow> i < n \<Longrightarrow> j < n \<Longrightarrow> smult a A ! i ! j = a * A ! i ! j"
  by (simp add: is_mat_iff smult_def)

lemma mtranspose_nth:
  assumes "is_mat n A" "i < n" "j < n"
  shows "mtranspose A ! i ! j = A ! j ! i"
proof -
  have "ncols A = n" using assms(1) by (rule is_mat_ncols)
  moreover have "length A = n" using assms(1) by (rule is_mat_length)
  ultimately show ?thesis using assms(2,3) by (simp add: mtranspose_def)
qed

lemma eye_nth: "i < n \<Longrightarrow> j < n \<Longrightarrow> eye n ! i ! j = (if i = j then 1 else 0)"
  by (simp add: eye_def)

lemma diag_nth: "i < length c \<Longrightarrow> j < length c \<Longrightarrow> diag c ! i ! j = (if i = j then c ! i else 0)"
  by (simp add: diag_def)

lemma zero_mat_nth: "i < n \<Longrightarrow> j < n \<Longrightarrow> zero_mat n ! i ! j = 0"
  by (simp add: zero_mat_def)

lemma smult_eye: "smult h (eye n) = diag (replicate n h)"
proof (rule mat_eqI[of n])
  show "is_mat n (smult h (eye n))" by (intro is_mat_smult is_mat_eye)
  show "is_mat n (diag (replicate n h))" using is_mat_diag[of "replicate n h"] by simp
  fix i j assume "i < n" "j < n"
  then show "smult h (eye n) ! i ! j = diag (replicate n h) ! i ! j"
    by (simp add: smult_nth[OF is_mat_eye] eye_nth diag_nth)
qed

section \<open>The circulant matrix of a vector\<close>

lemma roll1_flip_nth:
  assumes "k < length v"
  shows "roll1 (flip v) ! k = v ! ((length v - k) mod length v)"
proof (cases k)
  case 0
  with assms show ?thesis
    by (simp add: roll1_def flip_def last_rev hd_conv_nth)
next
  case (Suc k')
  with assms have "roll1 (flip v) ! k = rev (tl v) ! k'"
    by (auto simp: roll1_def flip_def)
  also have "\<dots> = tl v ! (length (tl v) - Suc k')"
    using assms Suc by (intro rev_nth) simp
  also have "\<dots> = v ! Suc (length (tl v) - Suc k')"
    using assms Suc by (intro nth_tl) simp
  also have "Suc (length (tl v) - Suc k') = length v - k"
    using assms Suc by simp
  also have "length v - k = (length v - k) mod length v"
    using assms Suc by simp
  finally show ?thesis .
qed

lemma length_roll1_flip: "length (roll1 (flip v)) = length v"
  by (simp add: roll1_def flip_def)

lemma is_mat_circulant: "is_mat (length v) (circulant v)"
  by (simp add: is_mat_iff circulant_def toeplitz_def length_roll1_flip)

lemma circulant_nth:
  assumes "i < length v" "j < length v"
  shows "circulant v ! i ! j = v ! ((j + length v - i) mod length v)"
proof (cases "j \<le> i")
  case True
  have "circulant v ! i ! j = roll1 (flip v) ! (i - j)"
    using assms True by (simp add: circulant_def toeplitz_def length_roll1_flip)
  also have "\<dots> = v ! ((length v - (i - j)) mod length v)"
    using assms by (intro roll1_flip_nth) simp
  also have "length v - (i - j) = j + length v - i"
    using assms True by simp
  finally show ?thesis .
next
  case False
  then have "circulant v ! i ! j = v ! (j - i)"
    using assms by (simp add: circulant_def toeplitz_def length_roll1_flip)
  also have "j - i = (j + length v - i) mod length v"
  proof -
    have e: "j + length v - i = (j - i) + length v" using False by simp
    have "j - i < length v" using assms by simp
    then have "((j - i) + length v) mod length v = j - i" by simp
    then show ?thesis unfolding e by simp
  qed
  finally show ?thesis .
qed


section \<open>Symmetry of circulant matrices\<close>

lemma wrap_opposite:
  assumes "i < (m::nat)" "j < m" "i \<noteq> j"
  shows "(i + m - j) mod m = m - (j + m - i) mod m" "0 < (j + m - i) mod m"
proof -
  show "(i + m - j) mod m = m - (j + m - i) mod m"
  proof (cases "i < j")
    case True
    have e: "j + m - i = (j - i) + m" using True by arith
    have "((j - i) + m) mod m = j - i" using assms by simp
    then have a: "(j + m - i) mod m = j - i" unfolding e .
    have "i + m - j < m" using True assms by simp
    then have "(i + m - j) mod m = i + m - j" by simp
    with a show ?thesis using True assms by simp
  next
    case False
    then have lt: "j < i" using assms by simp
    have e: "i + m - j = (i - j) + m" using lt by arith
    have "((i - j) + m) mod m = i - j" using assms by simp
    then have a: "(i + m - j) mod m = i - j" unfolding e .
    have "j + m - i < m" using lt assms by simp
    then have "(j + m - i) mod m = j + m - i" by simp
    with a show ?thesis using lt assms by simp
  qed
  show "0 < (j + m - i) mod m"
  proof (cases "i < j")
    case True
    have e: "j + m - i = (j - i) + m" using True by arith
    have "((j - i) + m) mod m = j - i" using assms by simp
    then have "(j + m - i) mod m = j - i" unfolding e .
    with True show ?thesis by simp
  next
    case False
    then have lt: "j < i" using assms by simp
    have "j + m - i < m" using lt assms by simp
    then have "(j + m - i) mod m = j + m - i" by simp
    with lt assms show ?thesis by simp
  qed
qed

lemma mirrored_nth:
  assumes "0 < k" "k < length v"
  shows "v ! (length v - k) = rev (tl v) ! (k - 1)" "v ! k = tl v ! (k - 1)"
proof -
  have "rev (tl v) ! (k - 1) = tl v ! (length (tl v) - Suc (k - 1))"
    using assms by (intro rev_nth) simp
  also have "\<dots> = v ! Suc (length (tl v) - Suc (k - 1))"
    using assms by (intro nth_tl) simp
  also have "Suc (length (tl v) - Suc (k - 1)) = length v - k"
    using assms by simp
  finally show "v ! (length v - k) = rev (tl v) ! (k - 1)" by simp
  have "tl v ! (k - 1) = v ! Suc (k - 1)" using assms by (intro nth_tl) simp
  then show "v ! k = tl v ! (k - 1)" using assms by simp
qed

lemma circulant_skew:
  assumes "v \<noteq> []" "hd v = 0" "rev (tl v) = map uminus (tl v)"
  shows "madd (circulant v) (mtranspose (circulant v)) = zero_mat (length v)"
proof (rule mat_eqI[of "length v"])
  let ?C = "circulant v" and ?m = "length v"
  have C: "is_mat ?m ?C" by (rule is_mat_circulant)
  show "is_mat ?m (madd ?C (mtranspose ?C))"
    by (intro is_mat_madd is_mat_mtranspose C)
  show "is_mat ?m (zero_mat ?m)" by (rule is_mat_zero_mat)
  fix i j assume ij: "i < ?m" "j < ?m"
  have "madd ?C (mtranspose ?C) ! i ! j = ?C ! i ! j + ?C ! j ! i"
    using ij by (simp add: madd_nth[OF C is_mat_mtranspose[OF C]] mtranspose_nth[OF C])
  also have "\<dots> = v ! ((j + ?m - i) mod ?m) + v ! ((i + ?m - j) mod ?m)"
    using ij by (simp add: circulant_nth)
  also have "\<dots> = 0"
  proof (cases "i = j")
    case True
    then show ?thesis using assms ij by (simp add: hd_conv_nth)
  next
    case False
    define k where "k = (j + ?m - i) mod ?m"
    have "0 < ?m" using ij by (cases v) simp_all
    then have "k < ?m" unfolding k_def by (rule mod_less_divisor)
    then have k: "0 < k" "k < ?m" "(i + ?m - j) mod ?m = ?m - k"
      using wrap_opposite[OF ij False] by (simp_all add: k_def)
    have "v ! (?m - k) = rev (tl v) ! (k - 1)" using k by (intro mirrored_nth)
    also have "\<dots> = map uminus (tl v) ! (k - 1)" using assms(3) by simp
    also have "\<dots> = - tl v ! (k - 1)" using k by simp
    also have "\<dots> = - v ! k" using mirrored_nth(2)[of k v] k by simp
    finally show ?thesis unfolding k(3) k_def[symmetric] by simp
  qed
  finally show "madd ?C (mtranspose ?C) ! i ! j = zero_mat ?m ! i ! j"
    using ij by (simp add: zero_mat_nth)
qed

lemma circulant_symmetric:
  assumes "rev (tl v) = tl v"
  shows "mtranspose (circulant v) = circulant v"
proof (rule mat_eqI[of "length v"])
  let ?C = "circulant v" and ?m = "length v"
  have C: "is_mat ?m ?C" by (rule is_mat_circulant)
  show "is_mat ?m (mtranspose ?C)" by (intro is_mat_mtranspose C)
  show "is_mat ?m ?C" by (rule C)
  fix i j assume ij: "i < ?m" "j < ?m"
  have "mtranspose ?C ! i ! j = v ! ((i + ?m - j) mod ?m)"
    using ij by (simp add: mtranspose_nth[OF C] circulant_nth)
  also have "\<dots> = v ! ((j + ?m - i) mod ?m)"
  proof (cases "i = j")
    case True
    then show ?thesis by simp
  next
    case False
    define k where "k = (j + ?m - i) mod ?m"
    have "0 < ?m" using ij by (cases v) simp_all
    then have "k < ?m" unfolding k_def by (rule mod_less_divisor)
    then have k: "0 < k" "k < ?m" "(i + ?m - j) mod ?m = ?m - k"
      using wrap_opposite[OF ij False] by (simp_all add: k_def)
    have "v ! (?m - k) = rev (tl v) ! (k - 1)" using k by (intro mirrored_nth)
    also have "\<dots> = v ! k" using mirrored_nth(2)[of k v] k assms by simp
    finally show ?thesis unfolding k(3) k_def[symmetric] .
  qed
  finally show "mtranspose ?C ! i ! j = ?C ! i ! j"
    using ij by (simp add: circulant_nth)
qed

section \<open>Row sums\<close>





section \<open>The stencil vector\<close>

lemma stencil_vector_int_closed:
  assumes "0 \<le> l" "0 \<le> r" "r < m" "l \<le> m" "int (length d) = l + r + 1"
  shows "stencil_vector m d l r
         = Inr (take (nat (m - l)) (drop (nat l) d @ replicate (nat (m - r - 1)) 0) @ take (nat l) d)"
proof -
  have "stencil_vector (int (nat m)) d (int (nat l)) (int (nat r))
        = Inr (take (nat m - nat l) (drop (nat l) d @ replicate (nat m - Suc (nat r)) 0) @ take (nat l) d)"
    using assms by (intro stencil_vector_closed) auto
  moreover have "nat m - nat l = nat (m - l)" "nat m - Suc (nat r) = nat (m - r - 1)"
    using assms by auto
  ultimately show ?thesis using assms by simp
qed

lemma stencil_vector_int_fits:
  assumes "0 \<le> l" "0 \<le> r" "l + r < m" "int (length d) = l + r + 1"
  shows "stencil_vector m d l r
         = Inr (drop (nat l) d @ replicate (nat (m - l - r - 1)) 0 @ take (nat l) d)"
proof -
  have "stencil_vector (int (nat m)) d (int (nat l)) (int (nat r))
        = Inr (drop (nat l) d @ replicate (nat m - Suc (nat l + nat r)) 0 @ take (nat l) d)"
    using assms by (intro stencil_vector_fits) auto
  moreover have "nat m - Suc (nat l + nat r) = nat (m - l - r - 1)"
    using assms by auto
  ultimately show ?thesis using assms by simp
qed

lemma stencil_vector_length:
  assumes "0 \<le> l" "0 \<le> r" "r < m" "l \<le> m" "int (length d) = l + r + 1"
    and "stencil_vector m d l r = Inr v"
  shows "length v = nat m"
proof -
  have "v = take (nat (m - l)) (drop (nat l) d @ replicate (nat (m - r - 1)) 0) @ take (nat l) d"
    using stencil_vector_int_closed[OF assms(1-5)] assms(6) by simp
  then show ?thesis using assms(1-5) by auto
qed

lemma for_range_stays_failed:
  assumes "for_range n body s = Inl e"
  shows "for_range (n + k) body s = Inl e"
  using assms by (induction k) simp_all

lemma stencil_vector_too_small:
  assumes "0 \<le> m" "m \<le> r" "0 \<le> l" "int (length d) = l + r + 1"
  shows "stencil_vector m d l r = Inl IndexError"
proof -
  let ?body = "\<lambda>i v. ebind (getitem d (i + int (nat l))) (\<lambda>x. setitem v i x)"
  let ?v = "take (nat m) (drop (nat l) d) @ replicate (nat m - nat m) 0"
  have "for_range (nat m) ?body (replicate (nat m) 0) = Inr ?v"
    using assms by (intro first_loop) auto
  moreover have "getitem d (int (nat m) + int (nat l)) = Inr (d ! (nat m + nat l))"
    using getitem_nat[of "nat m + nat l" d] assms by auto
  moreover have "setitem ?v (int (nat m)) (d ! (nat m + nat l)) = Inl IndexError"
    using assms by (intro setitem_out) auto
  ultimately have "for_range (Suc (nat m)) ?body (replicate (nat m) 0) = Inl IndexError"
    by simp
  then have "for_range (Suc (nat m) + (nat r - nat m)) ?body (replicate (nat m) 0) = Inl IndexError"
    by (rule for_range_stays_failed)
  moreover have "Suc (nat m) + (nat r - nat m) = nat (r + 1)"
    using assms by linarith
  ultimately have "for_range (nat (r + 1)) ?body (replicate (nat m) 0) = Inl IndexError"
    by (simp only:)
  then show ?thesis using assms by (simp add: stencil_vector_def zeros_def)
qed

lemma stencil_vector_negative: "m < 0 \<Longrightarrow> stencil_vector m d l r = Inl ValueError"
  by (simp add: stencil_vector_def zeros_def)

section \<open>Stencils wrapped into a vector\<close>


lemma wrapped_tl:
  assumes "length d = Suc (2 * l)"
  shows "tl (drop l d @ replicate z 0 @ take l d) = drop (Suc l) d @ replicate z 0 @ take l d"
    and "hd (drop l d @ replicate z 0 @ take l d) = d ! l"
    and "drop l d @ replicate z 0 @ take l d \<noteq> []"
proof -
  have "drop l d = d ! l # drop (Suc l) d"
    using assms by (intro Cons_nth_drop_Suc[symmetric]) simp
  then show "tl (drop l d @ replicate z 0 @ take l d) = drop (Suc l) d @ replicate z 0 @ take l d"
    and "hd (drop l d @ replicate z 0 @ take l d) = d ! l"
    and "drop l d @ replicate z 0 @ take l d \<noteq> []"
    by simp_all
qed

lemma wrapped_antisymmetric:
  assumes "length d = Suc (2 * l)" "rev d = map uminus (d :: real list)"
  shows "hd (drop l d @ replicate z 0 @ take l d) = 0"
    and "rev (tl (drop l d @ replicate z 0 @ take l d))
         = map uminus (tl (drop l d @ replicate z 0 @ take l d))"
proof -
  have "rev d ! l = d ! (length d - Suc l)" using assms by (intro rev_nth) simp
  then have "rev d ! l = d ! l" using assms by simp
  moreover have "map uminus d ! l = - d ! l" using assms by simp
  ultimately have "d ! l = 0" using assms(2) by simp
  then show "hd (drop l d @ replicate z 0 @ take l d) = 0"
    using wrapped_tl(2)[OF assms(1)] by simp
  have a: "rev (take l d) = map uminus (drop (Suc l) d)"
    using assms by (simp add: rev_take drop_map)
  have b: "rev (drop (Suc l) d) = map uminus (take l d)"
    using assms by (simp add: rev_drop take_map)
  show "rev (tl (drop l d @ replicate z 0 @ take l d))
         = map uminus (tl (drop l d @ replicate z 0 @ take l d))"
    unfolding wrapped_tl(1)[OF assms(1)] by (simp add: a b)
qed

lemma wrapped_symmetric:
  assumes "length d = Suc (2 * l)" "rev d = (d :: real list)"
  shows "rev (tl (drop l d @ replicate z 0 @ take l d))
         = tl (drop l d @ replicate z 0 @ take l d)"
proof -
  have a: "rev (take l d) = drop (Suc l) d"
    using assms by (simp add: rev_take)
  have b: "rev (drop (Suc l) d) = take l d"
    using assms by (simp add: rev_drop)
  show ?thesis unfolding wrapped_tl(1)[OF assms(1)] by (simp add: a b)
qed

section \<open>The stencil tables of the explicit builder\<close>

lemma expl_stencil_facts:
  assumes "expl_stencil order = Inr (d, l, r)"
  shows "l = r" "0 < l" "2 * l = order" "length d = Suc (2 * nat l)"
    "rev d = map uminus d" "sum_list d = 0"
  using assms by (auto simp: expl_stencil_def split: if_splits)

lemma expl_dissipation_facts:
  assumes "expl_dissipation order = Inr (d, l, r, a)"
  shows "l = r" "0 < l" "2 * l = order" "length d = Suc (2 * nat l)"
    "rev d = d" "sum_list d = 0"
  using assms by (auto simp: expl_dissipation_def split: if_splits)

lemma expl_stencil_supported:
  assumes "order \<in> {2, 4, 6, 8, 10, 12}"
  obtains d l where "expl_stencil order = Inr (d, l, l)"
proof -
  obtain d l r where "expl_stencil order = Inr (d, l, r)"
    using assms by (cases "expl_stencil order") (auto simp: expl_stencil_error)
  with that expl_stencil_facts(1)[OF this] show thesis by simp
qed

lemma expl_dissipation_supported:
  assumes "order \<in> {2, 4, 6, 8, 10, 12}"
  obtains d l a where "expl_dissipation order = Inr (d, l, l, a)"
proof -
  obtain d l r a where "expl_dissipation order = Inr (d, l, r, a)"
    using assms by (cases "expl_dissipation order") (auto simp: expl_dissipation_error)
  with that expl_dissipation_facts(1)[OF this] show thesis by simp
qed

lemma half_width_eq: "expl_stencil order = Inr (d, l, r) \<Longrightarrow> half_width order = l"
  by (simp add: half_width_def)

section \<open>What the explicit builder returns\<close>

lemma wrapped_length:
  assumes "0 \<le> l" "2 * l < m" "length d = Suc (2 * nat l)"
  shows "length (drop (nat l) d @ replicate (nat (m - l - l - 1)) 0 @ take (nat l) d) = nat m"
  using assms by auto

lemma periodic_expl_plain:
  assumes "expl_stencil order = Inr (d, l, r)" "2 * l < m"
  shows "periodic_expl m h order False
         = Inr (smult h (eye (nat m)),
                circulant (drop (nat l) d @ replicate (nat (m - l - l - 1)) 0 @ take (nat l) d))"
proof -
  note f = expl_stencil_facts[OF assms(1)]
  have "stencil_vector m d l r
        = Inr (drop (nat l) d @ replicate (nat (m - l - r - 1)) 0 @ take (nat l) d)"
    using f assms(2) by (intro stencil_vector_int_fits) auto
  then show ?thesis using assms(1) f(1) by (simp add: periodic_expl_def)
qed


section \<open>Skew-symmetry of the explicit operators (C1)\<close>

text \<open>
  Claim C1. For every order in 2, 4, 6, 8, 10, 12, every integer \<open>m\<close> greater than
  twice the half-width of the order's stencil and every \<open>h > 0\<close>,
  \<open>periodic_expl(m, h, order, use_AD=False)\<close> returns a pair \<open>(H, Q)\<close> in which
  \<open>Q\<close> is skew-symmetric, \<open>Q + transpose(Q) = 0\<close>, and \<open>H\<close> is \<open>h\<close> times the
  \<open>m\<close>-by-\<open>m\<close> identity matrix. The entries of \<open>Q\<close> are copies of the stencil
  weights, and a weight and its mirror image differ by the sign only.
\<close>

theorem periodic_expl_skew_symmetric:
  assumes "order \<in> {2, 4, 6, 8, 10, 12}" "2 * half_width order < m" "0 < h"
  shows "\<exists>H Q. periodic_expl m h order False = Inr (H, Q)
           \<and> is_mat (nat m) Q
           \<and> madd Q (mtranspose Q) = zero_mat (nat m)
           \<and> H = smult h (eye (nat m))"
proof -
  obtain d l where st: "expl_stencil order = Inr (d, l, l)"
    using assms(1) by (rule expl_stencil_supported)
  note f = expl_stencil_facts[OF st]
  have m: "2 * l < m" using assms(2) half_width_eq[OF st] by simp
  let ?w = "drop (nat l) d @ replicate (nat (m - l - l - 1)) 0 @ take (nat l) d"
  have len: "length ?w = nat m" using f m by (intro wrapped_length) auto
  have "madd (circulant ?w) (mtranspose (circulant ?w)) = zero_mat (length ?w)"
    using wrapped_tl(3)[OF f(4)] wrapped_antisymmetric[OF f(4) f(5)]
    by (intro circulant_skew)
  moreover have "is_mat (length ?w) (circulant ?w)" by (rule is_mat_circulant)
  ultimately show ?thesis
    unfolding len using periodic_expl_plain[OF st m, of h] by simp
qed

theorem periodic_expl_skew_symmetric_witness:
  "\<exists>H Q. periodic_expl 8 1 2 False = Inr (H, Q)
           \<and> is_mat 8 Q
           \<and> madd Q (mtranspose Q) = zero_mat 8
           \<and> H = smult 1 (eye 8)"
  using periodic_expl_skew_symmetric [of 2 8 1]
  by (simp add: half_width_def expl_stencil_def)

section \<open>The circulant assembly against its contract (C4)\<close>

lemma wrapped_nth:
  assumes "length d = Suc (2 * L)" "2 * L < M" "k < M"
  shows "(drop L d @ replicate (M - Suc (2 * L)) 0 @ take L d) ! k
         = (if k \<le> L then d ! (L + k) else if M - L \<le> k then d ! (k + L - M) else (0::real))"
proof -
  have ld: "length (drop L d) = Suc L" using assms by simp
  consider "k \<le> L" | "L < k" "k < M - L" | "M - L \<le> k" by linarith
  then show ?thesis
  proof cases
    case 1
    then show ?thesis using ld by (simp add: nth_append)
  next
    case 2
    have "\<not> k < Suc L" using 2 by linarith
    then have "(drop L d @ replicate (M - Suc (2 * L)) 0 @ take L d) ! k
        = (replicate (M - Suc (2 * L)) 0 @ take L d) ! (k - Suc L)"
      using ld by (simp add: nth_append)
    also have "\<dots> = 0"
    proof -
      have "k - Suc L < M - Suc (2 * L)" using 2 assms by linarith
      then show ?thesis by (simp add: nth_append)
    qed
    finally show ?thesis using 2 by simp
  next
    case 3
    have "\<not> k < Suc L" using 3 assms by linarith
    then have "(drop L d @ replicate (M - Suc (2 * L)) 0 @ take L d) ! k
        = (replicate (M - Suc (2 * L)) 0 @ take L d) ! (k - Suc L)"
      using ld by (simp add: nth_append)
    also have "\<dots> = take L d ! (k - Suc L - (M - Suc (2 * L)))"
    proof -
      have "\<not> k - Suc L < M - Suc (2 * L)" using 3 assms by linarith
      then show ?thesis by (simp add: nth_append)
    qed
    also have "k - Suc L - (M - Suc (2 * L)) = k + L - M" using 3 assms by linarith
    also have "take L d ! (k + L - M) = d ! (k + L - M)" using 3 assms by simp
    finally show ?thesis using 3 \<open>\<not> k < Suc L\<close> by simp
  qed
qed

lemma small_multiple:
  assumes "(x::int) mod m = 0" "- m < x" "x < m"
  shows "x = 0"
proof (rule ccontr)
  assume nz: "x \<noteq> 0"
  have d: "m dvd x" using assms(1) by (simp add: mod_eq_0_iff_dvd)
  show False
  proof (cases "0 < x")
    case True
    with d have "m \<le> x" by (rule zdvd_imp_le)
    with assms(3) show False by simp
  next
    case False
    with nz have "0 < - x" by simp
    moreover have "m dvd - x" using d by simp
    ultimately have "m \<le> - x" by (intro zdvd_imp_le)
    with assms(2) show False by simp
  qed
qed

lemma sum_list_single:
  assumes "a \<in> set xs" "distinct xs" "\<And>x. x \<in> set xs \<Longrightarrow> P x \<longleftrightarrow> x = a"
  shows "(\<Sum>x\<leftarrow>xs. if P x then f x else 0) = (f a :: real)"
proof -
  have "(\<Sum>x\<leftarrow>xs. if P x then f x else 0) = (\<Sum>x\<in>set xs. if P x then f x else 0)"
    using assms(2) by (rule sum_list_distinct_conv_sum_set)
  also have "\<dots> = (\<Sum>x\<in>set xs. if x = a then f x else 0)"
    using assms(3) by (intro sum.cong) auto
  also have "\<dots> = f a" using assms(1) by (simp add: sum.delta)
  finally show ?thesis .
qed

lemma sum_list_none:
  assumes "\<And>x. x \<in> set xs \<Longrightarrow> \<not> P x"
  shows "(\<Sum>x\<leftarrow>xs. if P x then f x else 0) = (0 :: real)"
  using assms by (induction xs) simp_all

lemma periodic_weight_cases:
  assumes "0 \<le> l" "2 * l < m" "k = (int j - int i) mod m"
  shows "periodic_weight d l m i j
         = (if k \<le> l then d ! nat (l + k) else if m - l \<le> k then d ! nat (l + k - m) else 0)"
proof -
  have k: "0 \<le> k" "k < m" using assms by simp_all
  let ?P = "\<lambda>q. (int j - int i - q) mod m = 0"
  have congr: "?P q \<longleftrightarrow> (k - q) mod m = 0" for q
    unfolding assms(3) by (metis mod_diff_left_eq)
  consider "k \<le> l" | "l < k" "k < m - l" | "m - l \<le> k" by linarith
  then show ?thesis
  proof cases
    case 1
    have "(\<Sum>q\<leftarrow>[- l..l]. if ?P q then d ! nat (l + q) else 0) = d ! nat (l + k)"
    proof (rule sum_list_single)
      show "k \<in> set [- l..l]" using 1 k assms(1,2) by simp
      show "distinct [- l..l]" by simp
      fix q assume "q \<in> set [- l..l]"
      then have q: "- l \<le> q" "q \<le> l" by simp_all
      show "?P q \<longleftrightarrow> q = k"
      proof
        assume "?P q"
        then have "(k - q) mod m = 0" by (simp add: congr)
        then have "k - q = 0" using q 1 k assms(1,2) by (elim small_multiple[of _ m]) linarith+
        then show "q = k" by simp
      next
        assume "q = k"
        then show "?P q" by (simp add: congr)
      qed
    qed
    with 1 show ?thesis by (simp add: periodic_weight_def)
  next
    case 2
    have "(\<Sum>q\<leftarrow>[- l..l]. if ?P q then d ! nat (l + q) else 0) = 0"
    proof (rule sum_list_none)
      fix q assume "q \<in> set [- l..l]"
      then have q: "- l \<le> q" "q \<le> l" by simp_all
      show "\<not> ?P q"
      proof
        assume "?P q"
        then have "(k - q) mod m = 0" by (simp add: congr)
        then have "k - q = 0" using q 2 k assms(1,2) by (elim small_multiple[of _ m]) linarith+
        then show False using q 2 by simp
      qed
    qed
    with 2 show ?thesis by (simp add: periodic_weight_def)
  next
    case 3
    have "(\<Sum>q\<leftarrow>[- l..l]. if ?P q then d ! nat (l + q) else 0) = d ! nat (l + (k - m))"
    proof (rule sum_list_single)
      show "k - m \<in> set [- l..l]" using 3 k assms(1,2) by simp
      show "distinct [- l..l]" by simp
      fix q assume "q \<in> set [- l..l]"
      then have q: "- l \<le> q" "q \<le> l" by simp_all
      show "?P q \<longleftrightarrow> q = k - m"
      proof
        assume "?P q"
        then have "(k - q) mod m = 0" by (simp add: congr)
        then have "(k - q - m) mod m = 0" by simp
        then have "k - q - m = 0" using q 3 k assms(1,2) by (elim small_multiple[of _ m]) linarith+
        then show "q = k - m" by simp
      next
        assume "q = k - m"
        then show "?P q" by (simp add: congr)
      qed
    qed
    moreover have "\<not> k \<le> l" using 3 assms(1,2) by linarith
    ultimately show ?thesis using 3 by (simp add: periodic_weight_def algebra_simps)
  qed
qed

text \<open>
  Claim C4. For every centered stencil \<open>d\<close> of half-width \<open>l = r\<close> and every
  \<open>m > l + r\<close>, the circulant assembly of the periodic builders produces the
  \<open>m\<close>-by-\<open>m\<close> matrix whose entry \<open>(i, j)\<close> is the stencil weight at the
  offset \<open>j - i\<close> modulo \<open>m\<close>: row \<open>i\<close> is the stencil centered at index
  \<open>i\<close>, wrapped periodically.
\<close>

theorem circulant_assembly_contract:
  assumes "0 \<le> l" "int (length d) = 2 * l + 1" "2 * l < m" "i < nat m" "j < nat m"
  shows "\<exists>v. stencil_vector m d l l = Inr v
           \<and> is_mat (nat m) (circulant v)
           \<and> circulant v ! i ! j = periodic_weight d l m i j"
proof -
  define L M where "L = nat l" and "M = nat m"
  let ?v = "drop L d @ replicate (M - Suc (2 * L)) 0 @ take L d"
  have lens: "length d = Suc (2 * L)" "2 * L < M" "i < M" "j < M"
    using assms by (auto simp: L_def M_def)
  have z: "nat (m - l - l - 1) = M - Suc (2 * L)"
    using assms by (auto simp: L_def M_def)
  have sv: "stencil_vector m d l l = Inr ?v"
    using stencil_vector_int_fits[of l l m d] assms unfolding z L_def by simp
  have len: "length ?v = M" using lens by simp
  have mat: "is_mat M (circulant ?v)" using is_mat_circulant[of ?v] unfolding len .
  define k' where "k' = (j + M - i) mod M"
  define k where "k = (int j - int i) mod m"
  have k'M: "k' < M" using lens unfolding k'_def by (intro mod_less_divisor) simp
  have e: "int (j + M - i) = int j - int i + m"
    using lens assms by (simp add: M_def)
  have Mm: "int M = m" using assms by (simp add: M_def)
  have "int k' = int (j + M - i) mod int M" by (simp add: k'_def zmod_int)
  also have "\<dots> = (int j - int i + m) mod m" unfolding e Mm ..
  also have "\<dots> = k" unfolding k_def by simp
  finally have kk: "int k' = k" .
  have entry: "circulant ?v ! i ! j = ?v ! k'"
    using circulant_nth[of i ?v j] lens unfolding len k'_def by simp
  have w: "?v ! k' = (if k' \<le> L then d ! (L + k') else if M - L \<le> k' then d ! (k' + L - M) else 0)"
    using lens k'M by (intro wrapped_nth)
  have p: "periodic_weight d l m i j
         = (if k \<le> l then d ! nat (l + k) else if m - l \<le> k then d ! nat (l + k - m) else 0)"
    using assms by (intro periodic_weight_cases) (simp_all add: k_def)
  have Ll: "int L = l" using assms by (simp add: L_def)
  have sub: "int (M - L) = m - l" using lens Ll Mm by (simp add: of_nat_diff)
  have c1: "k' \<le> L \<longleftrightarrow> k \<le> l"
    unfolding Ll[symmetric] kk[symmetric] by simp
  have c2: "M - L \<le> k' \<longleftrightarrow> m - l \<le> k"
    unfolding sub[symmetric] kk[symmetric] by simp
  have i1: "L + k' = nat (l + k)"
    unfolding Ll[symmetric] kk[symmetric] by (simp add: nat_int_add)
  have i2: "k' + L - M = nat (l + k - m)"
    unfolding Ll[symmetric] kk[symmetric] Mm[symmetric] by linarith
  have "?v ! k' = periodic_weight d l m i j"
    unfolding w p using c1 c2 i1 i2 by auto
  with sv mat entry show ?thesis unfolding M_def by auto
qed

theorem circulant_assembly_contract_witness:
  "\<exists>v. stencil_vector 8 [-0.5, 0, 0.5] 1 1 = Inr v
           \<and> is_mat 8 (circulant v)
           \<and> circulant v ! 0 ! 7 = periodic_weight [-0.5, 0, 0.5] 1 8 0 7"
  using circulant_assembly_contract [of 1 "[-0.5, 0, 0.5]" 8 0 7] by simp

section \<open>What the implicit builder returns\<close>

lemma imp_stencil_facts:
  "length imp_Q_stencil = Suc (2 * 5)" "rev imp_Q_stencil = map uminus imp_Q_stencil"
  "sum_list imp_Q_stencil = 0"
  "length imp_H_stencil = Suc (2 * 5)" "rev imp_H_stencil = imp_H_stencil"
  "length imp_dissipation = Suc (2 * 6)" "rev imp_dissipation = imp_dissipation"
  "sum_list imp_dissipation = 0"
  by (simp_all add: imp_Q_stencil_def imp_H_stencil_def imp_dissipation_def)

lemma periodic_imp_plain:
  assumes "10 < m"
  shows "periodic_imp m h False
         = Inr (smult h (circulant (drop 5 imp_H_stencil @ replicate (nat (m - 11)) 0
                                     @ take 5 imp_H_stencil)),
                circulant (drop 5 imp_Q_stencil @ replicate (nat (m - 11)) 0
                            @ take 5 imp_Q_stencil))"
proof -
  have "stencil_vector m imp_Q_stencil 5 5
        = Inr (drop (nat 5) imp_Q_stencil @ replicate (nat (m - 5 - 5 - 1)) 0
               @ take (nat 5) imp_Q_stencil)"
    using assms imp_stencil_facts by (intro stencil_vector_int_fits) auto
  moreover have "stencil_vector m imp_H_stencil 5 5
        = Inr (drop (nat 5) imp_H_stencil @ replicate (nat (m - 5 - 5 - 1)) 0
               @ take (nat 5) imp_H_stencil)"
    using assms imp_stencil_facts by (intro stencil_vector_int_fits) auto
  ultimately show ?thesis by (simp add: periodic_imp_def)
qed


section \<open>Constants differentiate to zero (C5)\<close>







section \<open>Small grids\<close>

lemma stencil_vector_small:
  assumes "0 \<le> l" "int (length d) = l + r + 1" "m \<le> r"
  shows "stencil_vector m d l r = Inl (if m < 0 then ValueError else IndexError)"
proof (cases "m < 0")
  case True
  then show ?thesis by (simp add: stencil_vector_negative)
next
  case False
  then have "stencil_vector m d l r = Inl IndexError"
    using assms by (intro stencil_vector_too_small) auto
  with False show ?thesis by simp
qed

lemma periodic_expl_small:
  assumes "expl_stencil order = Inr (d, l, r)" "m \<le> l"
  shows "periodic_expl m h order use_AD = Inl (if m < 0 then ValueError else IndexError)"
proof -
  note f = expl_stencil_facts[OF assms(1)]
  have "stencil_vector m d l r = Inl (if m < 0 then ValueError else IndexError)"
    using f assms(2) by (intro stencil_vector_small) auto
  then have "periodic_expl m h order use_AD = ebind (Inl (if m < 0 then ValueError else IndexError))
      (\<lambda>v. let Q = circulant v; H = smult h (eye (nat m))
       in if use_AD then
            ebind (expl_dissipation order) (\<lambda>(d, l, r, a).
            ebind (stencil_vector m d l r) (\<lambda>v.
              let S = smult a (circulant v) in Inr (H, msub Q S)))
          else Inr (H, Q))"
    unfolding periodic_expl_def assms(1) by simp
  then show ?thesis by (simp only: ebind_Inl)
qed

lemma periodic_expl_returns:
  assumes "expl_stencil order = Inr (d, l, r)" "l < m"
  shows "\<exists>Q. periodic_expl m h order use_AD = Inr (smult h (eye (nat m)), Q)"
proof -
  note f = expl_stencil_facts[OF assms(1)]
  have sup: "order \<in> {2, 4, 6, 8, 10, 12}"
    using assms(1) by (auto simp: expl_stencil_def split: if_splits)
  obtain d' l' a where ds: "expl_dissipation order = Inr (d', l', l', a)"
    using sup by (rule expl_dissipation_supported)
  note g = expl_dissipation_facts[OF ds]
  have ll: "l' = l" "r = l" using f g by simp_all
  have 1: "\<exists>v. stencil_vector m d l r = Inr v"
    using stencil_vector_int_closed[of l r m d] f assms(2) by auto
  have 2: "\<exists>v. stencil_vector m d' l' l' = Inr v"
    using stencil_vector_int_closed[of l' l' m d'] g ll assms(2) by auto
  from 1 2 show ?thesis using assms(1) ds
    by (cases use_AD) (auto simp: periodic_expl_def Let_def)
qed

lemma periodic_imp_small:
  assumes "m \<le> 5"
  shows "periodic_imp m h use_AD = Inl (if m < 0 then ValueError else IndexError)"
proof -
  have "stencil_vector m imp_Q_stencil 5 5 = Inl (if m < 0 then ValueError else IndexError)"
    using assms imp_stencil_facts by (intro stencil_vector_small) auto
  then show ?thesis unfolding periodic_imp_def by (simp only: ebind_Inl)
qed

lemma periodic_imp_returns_plain:
  assumes "5 < m"
  shows "\<exists>vH vQ. stencil_vector m imp_H_stencil 5 5 = Inr vH
           \<and> stencil_vector m imp_Q_stencil 5 5 = Inr vQ
           \<and> periodic_imp m h False = Inr (smult h (circulant vH), circulant vQ)"
proof -
  have 1: "\<exists>v. stencil_vector m imp_Q_stencil 5 5 = Inr v"
    using stencil_vector_int_closed[of 5 5 m imp_Q_stencil] imp_stencil_facts assms by auto
  have 2: "\<exists>v. stencil_vector m imp_H_stencil 5 5 = Inr v"
    using stencil_vector_int_closed[of 5 5 m imp_H_stencil] imp_stencil_facts assms by auto
  from 1 2 show ?thesis by (auto simp: periodic_imp_def Let_def)
qed

lemma periodic_imp_returns_dissipated:
  assumes "6 < m"
  shows "\<exists>vH vQ vS. stencil_vector m imp_H_stencil 5 5 = Inr vH
           \<and> stencil_vector m imp_Q_stencil 5 5 = Inr vQ
           \<and> stencil_vector m imp_dissipation 6 6 = Inr vS
           \<and> periodic_imp m h True
               = Inr (smult h (circulant vH), msub (circulant vQ) (smult (1/5544) (circulant vS)))"
proof -
  have 1: "\<exists>v. stencil_vector m imp_Q_stencil 5 5 = Inr v"
    using stencil_vector_int_closed[of 5 5 m imp_Q_stencil] imp_stencil_facts assms by auto
  have 2: "\<exists>v. stencil_vector m imp_H_stencil 5 5 = Inr v"
    using stencil_vector_int_closed[of 5 5 m imp_H_stencil] imp_stencil_facts assms by auto
  have 3: "\<exists>v. stencil_vector m imp_dissipation 6 6 = Inr v"
    using stencil_vector_int_closed[of 6 6 m imp_dissipation] imp_stencil_facts assms by auto
  from 1 2 3 show ?thesis by (auto simp: periodic_imp_def Let_def)
qed

lemma periodic_imp_six: "periodic_imp 6 h True = Inl IndexError"
proof -
  have 1: "\<exists>v. stencil_vector 6 imp_Q_stencil 5 5 = Inr v"
    using stencil_vector_int_closed[of 5 5 6 imp_Q_stencil] imp_stencil_facts by auto
  have 2: "\<exists>v. stencil_vector 6 imp_H_stencil 5 5 = Inr v"
    using stencil_vector_int_closed[of 5 5 6 imp_H_stencil] imp_stencil_facts by auto
  have 3: "stencil_vector 6 imp_dissipation 6 6 = Inl IndexError"
    using stencil_vector_small[of 6 imp_dissipation 6 6] imp_stencil_facts by simp
  from 1 2 3 show ?thesis by (auto simp: periodic_imp_def Let_def)
qed

section \<open>The norm matrix and the dissipation flag (C10)\<close>

text \<open>
  Claim C10. The norm matrix \<open>H\<close> does not depend on the dissipation flag: the
  calls of \<open>periodic_expl\<close> with and without dissipation give the same \<open>H\<close> (and
  fail alike when they fail), and whenever \<open>periodic_imp\<close> with dissipation
  returns, \<open>periodic_imp\<close> without dissipation returns the same \<open>H\<close>; both do so
  for every \<open>m > 12\<close>. Dissipation changes \<open>Q\<close> only.
\<close>

theorem norm_matrix_ignores_dissipation:
  "map_sum id fst (periodic_expl m h order True) = map_sum id fst (periodic_expl m h order False)
   \<and> (periodic_imp m h True = Inr (H, Q) \<longrightarrow> (\<exists>Q'. periodic_imp m h False = Inr (H, Q')))
   \<and> (12 < m \<longrightarrow> (\<exists>H Q Q'. periodic_imp m h True = Inr (H, Q)
                              \<and> periodic_imp m h False = Inr (H, Q')))"
proof (intro conjI impI)
  show "map_sum id fst (periodic_expl m h order True)
        = map_sum id fst (periodic_expl m h order False)"
  proof (cases "expl_stencil order")
    case (Inl e)
    then show ?thesis by (simp add: periodic_expl_def)
  next
    case (Inr t)
    then obtain d l r where st: "expl_stencil order = Inr (d, l, r)" by (cases t) auto
    show ?thesis
    proof (cases "m \<le> l")
      case True
      then show ?thesis using periodic_expl_small[OF st] by simp
    next
      case False
      then have "l < m" by simp
      then show ?thesis
        using periodic_expl_returns[OF st, of m h True] periodic_expl_returns[OF st, of m h False]
        by auto
    qed
  qed
next
  assume r: "periodic_imp m h True = Inr (H, Q)"
  have "6 < m"
  proof (rule ccontr)
    assume "\<not> 6 < m"
    then consider "m \<le> 5" | "m = 6" by linarith
    then show False using r periodic_imp_small[of m h True] periodic_imp_six[of h] by cases auto
  qed
  then show "\<exists>Q'. periodic_imp m h False = Inr (H, Q')"
    using periodic_imp_returns_dissipated[of m h] periodic_imp_returns_plain[of m h] r by auto
next
  assume "12 < m"
  then show "\<exists>H Q Q'. periodic_imp m h True = Inr (H, Q) \<and> periodic_imp m h False = Inr (H, Q')"
    using periodic_imp_returns_dissipated[of m h] periodic_imp_returns_plain[of m h] by auto
qed

theorem norm_matrix_ignores_dissipation_witness:
  "map_sum id fst (periodic_expl 9 2 4 True) = map_sum id fst (periodic_expl 9 2 4 False)
   \<and> (\<exists>H Q Q'. periodic_imp 13 2 True = Inr (H, Q) \<and> periodic_imp 13 2 False = Inr (H, Q'))"
  using norm_matrix_ignores_dissipation [of 13 2 4] norm_matrix_ignores_dissipation [of 9 2 4]
  by simp

section \<open>The dissipation term of the implicit builder (C9)\<close>





section \<open>Matrix products\<close>

lemma mmul_nth:
  assumes "is_mat n A" "is_mat n B" "i < n" "j < n"
  shows "mmul A B ! i ! j = (\<Sum>k\<leftarrow>[0..<n]. A ! i ! k * B ! k ! j)"
  using assms is_mat_ncols[OF assms(2)] by (simp add: mmul_def is_mat_iff)

lemma is_mat_mmul:
  assumes "is_mat n A" "is_mat n B"
  shows "is_mat n (mmul A B)"
  using assms is_mat_ncols[OF assms(2)] by (simp add: mmul_def is_mat_iff)

lemma mmul_smult_left:
  assumes "is_mat n A" "is_mat n B"
  shows "mmul (smult a A) B = smult a (mmul A B)"
proof (rule mat_eqI[of n])
  show "is_mat n (mmul (smult a A) B)" by (intro is_mat_mmul is_mat_smult assms)
  show "is_mat n (smult a (mmul A B))" by (intro is_mat_mmul is_mat_smult assms)
  fix i j assume ij: "i < n" "j < n"
  have "mmul (smult a A) B ! i ! j = (\<Sum>k\<leftarrow>[0..<n]. smult a A ! i ! k * B ! k ! j)"
    using is_mat_smult[OF assms(1)] assms(2) ij by (rule mmul_nth)
  also have "\<dots> = (\<Sum>k\<leftarrow>[0..<n]. a * (A ! i ! k * B ! k ! j))"
    using ij by (intro arg_cong[of _ _ sum_list] map_cong refl)
      (simp add: smult_nth[OF assms(1)])
  also have "\<dots> = a * (\<Sum>k\<leftarrow>[0..<n]. A ! i ! k * B ! k ! j)"
    by (rule sum_list_const_mult)
  also have "\<dots> = smult a (mmul A B) ! i ! j"
    using ij by (simp add: smult_nth[OF is_mat_mmul[OF assms]] mmul_nth[OF assms])
  finally show "mmul (smult a A) B ! i ! j = smult a (mmul A B) ! i ! j" .
qed

lemma mmul_diag_ones:
  assumes "is_mat n A"
  shows "mmul A (diag (replicate n 1)) = A"
proof (rule mat_eqI[of n])
  have D: "is_mat n (diag (replicate n 1))" using is_mat_diag[of "replicate n 1"] by simp
  show "is_mat n (mmul A (diag (replicate n 1)))" by (intro is_mat_mmul assms D)
  show "is_mat n A" by (rule assms)
  fix i j assume ij: "i < n" "j < n"
  have "mmul A (diag (replicate n 1)) ! i ! j
        = (\<Sum>k\<leftarrow>[0..<n]. A ! i ! k * diag (replicate n 1) ! k ! j)"
    using assms D ij by (rule mmul_nth)
  also have "\<dots> = (\<Sum>k\<leftarrow>[0..<n]. if k = j then A ! i ! k else 0)"
    using ij by (intro arg_cong[of _ _ sum_list] map_cong refl) (simp add: diag_nth)
  also have "\<dots> = A ! i ! j"
    using ij by (intro sum_list_single) auto
  finally show "mmul A (diag (replicate n 1)) ! i ! j = A ! i ! j" .
qed

section \<open>The variable-coefficient second derivative (C6)\<close>

lemma periodic_expl_plain_returns:
  assumes "expl_stencil order = Inr (d, l, r)" "l < m"
  shows "\<exists>Q. is_mat (nat m) Q \<and> periodic_expl m h order False = Inr (smult h (eye (nat m)), Q)"
proof -
  note f = expl_stencil_facts[OF assms(1)]
  let ?v = "take (nat (m - l)) (drop (nat l) d @ replicate (nat (m - r - 1)) 0) @ take (nat l) d"
  have sv: "stencil_vector m d l r = Inr ?v"
    using f assms(2) by (intro stencil_vector_int_closed) auto
  have "length ?v = nat m"
    using f assms(2) by (intro stencil_vector_length[OF _ _ _ _ _ sv]) auto
  then have "is_mat (nat m) (circulant ?v)" using is_mat_circulant[of ?v] by simp
  then show ?thesis using sv assms(1) by (auto simp: periodic_expl_def Let_def)
qed

lemma M_fun_value:
  assumes "is_mat n Q" "length c = n" "h \<noteq> 0"
  shows "M_fun h Q c = Inr (smult (- (1 / h)) (mmul (mmul Q (diag c)) Q))"
proof -
  have C: "is_mat n (diag c)" using is_mat_diag[of c] assms(2) by simp
  have "ncols Q = length (diag c)"
    using is_mat_ncols[OF assms(1)] is_mat_length[OF C] by simp
  then have "M_fun h Q c = Inr (mmul (mmul (smult ((-1) / h) Q) (diag c)) Q)"
    using assms(3) by (simp add: M_fun_def Let_def)
  also have "mmul (smult ((-1) / h) Q) (diag c) = smult ((-1) / h) (mmul Q (diag c))"
    using assms(1) C by (rule mmul_smult_left)
  also have "mmul (smult ((-1) / h) (mmul Q (diag c))) Q = smult ((-1) / h) (mmul (mmul Q (diag c)) Q)"
    using is_mat_mmul[OF assms(1) C] assms(1) by (rule mmul_smult_left)
  finally show ?thesis by simp
qed

text \<open>
  Claim C6. For every \<open>m\<close>, \<open>h > 0\<close> and supported order, the closure \<open>M\<close> that
  \<open>periodic_variable_wide(m, h, order)\<close> returns satisfies
  \<open>M(c) = -(1/h) * Q * diag(c) * Q\<close> for every coefficient array \<open>c\<close> of length
  \<open>m\<close>, where \<open>Q\<close> comes from \<open>periodic_expl(m, h, order)\<close> without dissipation;
  in particular \<open>M(ones(m)) = -(1/h) * Q * Q\<close>. A closure is returned exactly when
  \<open>periodic_expl\<close> returns, that is for every \<open>m\<close> above the half-width.
\<close>

theorem variable_coefficient_contract:
  assumes "order \<in> {2, 4, 6, 8, 10, 12}" "half_width order < m" "0 < h" "length c = nat m"
  shows "\<exists>M H Q. periodic_variable_wide m h order = Inr M
           \<and> periodic_expl m h order False = Inr (H, Q)
           \<and> M c = Inr (smult (- (1 / h)) (mmul (mmul Q (diag c)) Q))
           \<and> M (replicate (nat m) 1) = Inr (smult (- (1 / h)) (mmul Q Q))"
proof -
  obtain d l where st: "expl_stencil order = Inr (d, l, l)"
    using assms(1) by (rule expl_stencil_supported)
  have m: "l < m" using assms(2) half_width_eq[OF st] by simp
  obtain Q where Q: "is_mat (nat m) Q"
    and ex: "periodic_expl m h order False = Inr (smult h (eye (nat m)), Q)"
    using periodic_expl_plain_returns[OF st m, of h] by blast
  have pv: "periodic_variable_wide m h order = Inr (M_fun h Q)"
    using ex by (simp add: periodic_variable_wide_def)
  have h: "h \<noteq> 0" using assms(3) by simp
  have 1: "M_fun h Q c = Inr (smult (- (1 / h)) (mmul (mmul Q (diag c)) Q))"
    using Q assms(4) h by (rule M_fun_value)
  have "M_fun h Q (replicate (nat m) 1)
        = Inr (smult (- (1 / h)) (mmul (mmul Q (diag (replicate (nat m) 1))) Q))"
    using Q _ h by (rule M_fun_value) simp
  then have 2: "M_fun h Q (replicate (nat m) 1) = Inr (smult (- (1 / h)) (mmul Q Q))"
    by (simp only: mmul_diag_ones[OF Q])
  from pv ex 1 2 show ?thesis by simp
qed

theorem variable_coefficient_contract_witness:
  "\<exists>M H Q. periodic_variable_wide 3 2 2 = Inr M
           \<and> periodic_expl 3 2 2 False = Inr (H, Q)
           \<and> M [1, 2, 3] = Inr (smult (- (1 / 2)) (mmul (mmul Q (diag [1, 2, 3])) Q))
           \<and> M (replicate 3 1) = Inr (smult (- (1 / 2)) (mmul Q Q))"
  using variable_coefficient_contract [of 2 3 2 "[1, 2, 3]"]
  by (simp add: half_width_def expl_stencil_def)

section \<open>Slices and blocks\<close>

lemma set_leading_ok:
  assumes "is_mat n A" "is_mat b B" "b \<le> n"
  shows "\<exists>A'. set_leading b A B = Inr A' \<and> is_mat n A'
           \<and> (\<forall>i<n. \<forall>j<n. A' ! i ! j = (if i < b \<and> j < b then B ! i ! j else A ! i ! j))"
proof -
  have s: "length A = n" "ncols A = n" "length B = b" "ncols B = b"
    using assms by (simp_all add: is_mat_length is_mat_ncols)
  let ?A' = "map (\<lambda>i. map (\<lambda>j. if i < b \<and> j < b then B ! i ! j else A ! i ! j) [0..<n]) [0..<n]"
  have "set_leading b A B = Inr ?A'"
    using s assms(3) by (simp add: set_leading_def min_def)
  moreover have "is_mat n ?A'" by (simp add: is_mat_iff)
  moreover have "\<forall>i<n. \<forall>j<n. ?A' ! i ! j = (if i < b \<and> j < b then B ! i ! j else A ! i ! j)"
    by simp
  ultimately show ?thesis by blast
qed

lemma set_leading_small:
  assumes "is_mat n A" "is_mat b B" "n < b"
  shows "set_leading b A B = Inl ValueError"
proof -
  have "length A = n" "length B = b" using assms by (simp_all add: is_mat_length)
  then show ?thesis using assms(3) by (simp add: set_leading_def min_def)
qed

lemma set_trailing_ok:
  assumes "is_mat n A" "is_mat b B" "b \<le> n"
  shows "\<exists>A'. set_trailing b A B = Inr A' \<and> is_mat n A'
           \<and> (\<forall>i<n. \<forall>j<n. A' ! i ! j =
                 (if n - b \<le> i \<and> n - b \<le> j then B ! (i - (n - b)) ! (j - (n - b)) else A ! i ! j))"
proof -
  have s: "length A = n" "ncols A = n" "length B = b" "ncols B = b"
    using assms by (simp_all add: is_mat_length is_mat_ncols)
  let ?A' = "map (\<lambda>i. map (\<lambda>j. if n - b \<le> i \<and> n - b \<le> j
                                 then B ! (i - (n - b)) ! (j - (n - b)) else A ! i ! j)
                       [0..<n]) [0..<n]"
  have "set_trailing b A B = Inr ?A'"
    using s assms(3) by (simp add: set_trailing_def min_def)
  moreover have "is_mat n ?A'" by (simp add: is_mat_iff)
  moreover have "\<forall>i<n. \<forall>j<n. ?A' ! i ! j =
                 (if n - b \<le> i \<and> n - b \<le> j then B ! (i - (n - b)) ! (j - (n - b)) else A ! i ! j)"
    by simp
  ultimately show ?thesis by blast
qed

lemma flipped_block:
  assumes "is_mat n A" "b \<le> n"
  shows "is_mat b (fliplr (flipud (get_leading b A)))"
    and "\<And>i j. i < b \<Longrightarrow> j < b \<Longrightarrow>
           fliplr (flipud (get_leading b A)) ! i ! j = A ! (b - Suc i) ! (b - Suc j)"
proof -
  have lA: "length A = n" and rows: "\<And>i. i < n \<Longrightarrow> length (A ! i) = n"
    using assms(1) by (simp_all add: is_mat_iff)
  have G: "is_mat b (get_leading b A)"
    using assms(2) lA rows by (simp add: is_mat_iff get_leading_def)
  have Gn: "get_leading b A ! i ! j = A ! i ! j" if "i < b" "j < b" for i j
    using that assms(2) lA by (simp add: get_leading_def)
  have lG: "length (get_leading b A) = b" using G by (rule is_mat_length)
  have rG: "length (get_leading b A ! i) = b" if "i < b" for i using G that by (rule is_mat_row)
  show "is_mat b (fliplr (flipud (get_leading b A)))"
    using lG rG by (simp add: is_mat_iff fliplr_def flipud_def rev_nth)
  fix i j assume ij: "i < b" "j < b"
  have "fliplr (flipud (get_leading b A)) ! i = rev (get_leading b A ! (b - Suc i))"
    using ij lG by (simp add: fliplr_def flipud_def rev_nth)
  moreover have "rev (get_leading b A ! (b - Suc i)) ! j = get_leading b A ! (b - Suc i) ! (b - Suc j)"
    using ij rG[of "b - Suc i"] by (simp add: rev_nth)
  ultimately show "fliplr (flipud (get_leading b A)) ! i ! j = A ! (b - Suc i) ! (b - Suc j)"
    using ij by (simp add: Gn)
qed

lemma flipped_transposed:
  assumes "is_mat b B"
  shows "is_mat b (mtranspose (flipud (fliplr B)))"
proof -
  have lB: "length B = b" and rows: "\<And>i. i < b \<Longrightarrow> length (B ! i) = b"
    using assms by (simp_all add: is_mat_iff)
  have "is_mat b (flipud (fliplr B))"
    using lB rows by (simp add: is_mat_iff fliplr_def flipud_def rev_nth)
  then show ?thesis by (rule is_mat_mtranspose)
qed

lemma is_mat_diag_k: "is_mat (length v + nat \<bar>k\<bar>) (diag_k v k)"
  by (simp add: is_mat_iff diag_k_def Let_def)

lemma is_mat_outer: "length x = n \<Longrightarrow> is_mat n (outer x x)"
  by (simp add: is_mat_iff outer_def)

lemma outer_nth: "i < length x \<Longrightarrow> j < length y \<Longrightarrow> outer x y ! i ! j = x ! i * y ! j"
  by (simp add: outer_def)

lemma is_mat_mneg: "is_mat n A \<Longrightarrow> is_mat n (mneg A)"
  by (simp add: is_mat_iff mneg_def)

lemma mneg_nth: "is_mat n A \<Longrightarrow> i < n \<Longrightarrow> j < n \<Longrightarrow> mneg A ! i ! j = - A ! i ! j"
  by (simp add: is_mat_iff mneg_def)

section \<open>The interior stencils of the upwind builders\<close>

lemma ones_ok: "0 \<le> k \<Longrightarrow> ones k = Inr (replicate (nat k) 1)"
  by (simp add: ones_def)

lemma diag_k_ones:
  assumes "0 \<le> j" "nat j + nat \<bar>k\<bar> = nat m"
  shows "is_mat (nat m) (diag_k (replicate (nat j) 1) k)"
  using is_mat_diag_k[of "replicate (nat j) 1" k] assms by simp

lemma interior_3rd_ok:
  assumes "2 \<le> m"
  shows "\<exists>I. interior_3rd m = Inr I \<and> is_mat (nat m) I"
proof -
  have d: "is_mat (nat m) (diag_k (replicate (nat (m - 1)) 1) (-1))"
      "is_mat (nat m) (diag_k (replicate (nat m) 1) 0)"
      "is_mat (nat m) (diag_k (replicate (nat (m - 1)) 1) 1)"
      "is_mat (nat m) (diag_k (replicate (nat (m - 2)) 1) 2)"
    using assms by (auto intro!: diag_k_ones)
  show ?thesis using assms
    by (simp add: interior_3rd_def ones_ok is_mat_madd is_mat_msub is_mat_smult d)
qed

lemma interior_5th_ok:
  assumes "3 \<le> m"
  shows "\<exists>I. interior_5th m = Inr I \<and> is_mat (nat m) I"
proof -
  have d: "is_mat (nat m) (diag_k (replicate (nat (m - 2)) 1) (-2))"
      "is_mat (nat m) (diag_k (replicate (nat (m - 1)) 1) (-1))"
      "is_mat (nat m) (diag_k (replicate (nat m) 1) 0)"
      "is_mat (nat m) (diag_k (replicate (nat (m - 1)) 1) 1)"
      "is_mat (nat m) (diag_k (replicate (nat (m - 2)) 1) 2)"
      "is_mat (nat m) (diag_k (replicate (nat (m - 3)) 1) 3)"
    using assms by (auto intro!: diag_k_ones)
  show ?thesis using assms
    by (simp add: interior_5th_def ones_ok is_mat_madd is_mat_msub is_mat_smult d)
qed

lemma interior_7th_ok:
  assumes "4 \<le> m"
  shows "\<exists>I. interior_7th m = Inr I \<and> is_mat (nat m) I"
proof -
  have d: "is_mat (nat m) (diag_k (replicate (nat (m - 3)) 1) (-3))"
      "is_mat (nat m) (diag_k (replicate (nat (m - 2)) 1) (-2))"
      "is_mat (nat m) (diag_k (replicate (nat (m - 1)) 1) (-1))"
      "is_mat (nat m) (diag_k (replicate (nat m) 1) 0)"
      "is_mat (nat m) (diag_k (replicate (nat (m - 1)) 1) 1)"
      "is_mat (nat m) (diag_k (replicate (nat (m - 2)) 1) 2)"
      "is_mat (nat m) (diag_k (replicate (nat (m - 3)) 1) 3)"
      "is_mat (nat m) (diag_k (replicate (nat (m - 4)) 1) 4)"
    using assms by (auto intro!: diag_k_ones)
  show ?thesis using assms
    by (simp add: interior_7th_def ones_ok is_mat_madd is_mat_msub is_mat_smult d)
qed

section \<open>The body of the upwind builders\<close>

lemma unit_vectors:
  assumes "0 < m"
  shows "ebind (zeros m) (\<lambda>e. setitem e 0 1) = Inr ((replicate (nat m) 0)[0 := 1])"
    and "ebind (zeros m) (\<lambda>e. setitem e (-1) 1) = Inr ((replicate (nat m) 0)[nat m - 1 := 1])"
proof -
  show "ebind (zeros m) (\<lambda>e. setitem e 0 1) = Inr ((replicate (nat m) 0)[0 := 1])"
    using assms by (simp add: zeros_def setitem_def)
  have "nat (int (nat m) + - 1) = nat m - 1" using assms by simp
  then show "ebind (zeros m) (\<lambda>e. setitem e (-1) 1) = Inr ((replicate (nat m) 0)[nat m - 1 := 1])"
    using assms by (simp add: zeros_def setitem_def Let_def)
qed

lemma upwind_body_small:
  assumes "m < int (length Hb)"
  shows "upwind_body Hb interior Qu m h = Inl (if m = 0 then IndexError else ValueError)"
proof -
  consider "m < 0" | "m = 0" | "0 < m" by linarith
  then show ?thesis
  proof cases
    case 1
    then show ?thesis by (simp add: upwind_body_def zeros_def)
  next
    case 2
    then show ?thesis by (simp add: upwind_body_def zeros_def setitem_def)
  next
    case 3
    have z: "zeros m = Inr (replicate (nat m) 0)" "ones m = Inr (replicate (nat m) 1)"
      using 3 by (simp_all add: zeros_def ones_def)
    have s1: "setitem (replicate (nat m) 0) 0 1 = Inr ((replicate (nat m) 0)[0 := 1])"
      using unit_vectors(1)[OF 3] z by simp
    have s2: "setitem (replicate (nat m) 0) (-1) 1 = Inr ((replicate (nat m) 0)[nat m - 1 := 1])"
      using unit_vectors(2)[OF 3] z by simp
    have "is_mat (nat m) (diag (replicate (nat m) 1))"
      using is_mat_diag[of "replicate (nat m) 1"] by simp
    then have "set_leading (length Hb) (diag (replicate (nat m) 1)) (diag Hb) = Inl ValueError"
      using is_mat_diag[of Hb] assms 3 by (intro set_leading_small[of "nat m"]) auto
    then show ?thesis using 3 z s1 s2 by (simp add: upwind_body_def)
  qed
qed

lemma upwind_body_ok:
  assumes b: "length Hb = b" "0 < b" "int b \<le> m"
    and Qu: "is_mat b Qu"
    and I: "interior m = Inr I" "is_mat (nat m) I"
    and Hb: "\<forall>x\<in>set Hb. x \<noteq> 0"
    and h: "h \<noteq> 0"
  shows "\<exists>s. upwind_body Hb interior Qu m h = Inr s
           \<and> is_mat (nat m) (u_Qp s)
           \<and> u_Qm s = mneg (mtranspose (u_Qp s))
           \<and> u_e_l s = (replicate (nat m) 0)[0 := 1]
           \<and> u_e_r s = (replicate (nat m) 0)[nat m - 1 := 1]"
proof -
  define n where "n = nat m"
  have bn: "b \<le> n" and m0: "0 < m" using b by (simp_all add: n_def)
  have z: "zeros m = Inr (replicate n 0)" "ones m = Inr (replicate n 1)"
    using m0 by (simp_all add: zeros_def ones_def n_def)
  have s1: "setitem (replicate n 0) 0 1 = Inr ((replicate n 0)[0 := 1])"
    using unit_vectors(1)[OF m0] z by (simp add: n_def)
  have s2: "setitem (replicate n 0) (-1) 1 = Inr ((replicate n 0)[n - 1 := 1])"
    using unit_vectors(2)[OF m0] z by (simp add: n_def)
  have D1: "is_mat n (diag (replicate n 1))" using is_mat_diag[of "replicate n 1"] by simp
  have DH: "is_mat b (diag Hb)" using is_mat_diag[of Hb] b(1) by simp
  obtain H1 where H1: "set_leading b (diag (replicate n 1)) (diag Hb) = Inr H1" "is_mat n H1"
    and H1n: "\<And>i j. i < n \<Longrightarrow> j < n \<Longrightarrow>
          H1 ! i ! j = (if i < b \<and> j < b then diag Hb ! i ! j else diag (replicate n 1) ! i ! j)"
    using set_leading_ok[OF D1 DH bn] by blast
  note F = flipped_block[OF H1(2) bn]
  obtain H2 where H2: "set_trailing b H1 (fliplr (flipud (get_leading b H1))) = Inr H2" "is_mat n H2"
    and H2n: "\<And>i j. i < n \<Longrightarrow> j < n \<Longrightarrow>
          H2 ! i ! j = (if n - b \<le> i \<and> n - b \<le> j
                        then fliplr (flipud (get_leading b H1)) ! (i - (n - b)) ! (j - (n - b))
                        else H1 ! i ! j)"
    using set_trailing_ok[OF H1(2) F(1) bn] by blast
  have H1d: "H1 ! i ! i \<noteq> 0" if "i < n" for i
  proof (cases "i < b")
    case True
    then have "H1 ! i ! i = Hb ! i" using that b(1) by (simp add: H1n diag_nth)
    moreover have "Hb ! i \<in> set Hb" using True b(1) by simp
    ultimately show ?thesis using Hb by auto
  next
    case False
    then show ?thesis using that by (simp add: H1n diag_nth)
  qed
  have H2d: "H2 ! i ! i \<noteq> 0" if "i < n" for i
  proof (cases "n - b \<le> i")
    case True
    define k where "k = i - (n - b)"
    have k: "k < b" using that True bn by (simp add: k_def)
    have "H2 ! i ! i = fliplr (flipud (get_leading b H1)) ! k ! k"
      using that True by (simp add: H2n k_def)
    also have "\<dots> = H1 ! (b - Suc k) ! (b - Suc k)" by (rule F(2)[OF k k])
    finally show ?thesis using H1d[of "b - Suc k"] k bn by simp
  next
    case False
    then show ?thesis using that by (simp add: H2n H1d)
  qed
  have "smult h H2 ! i ! i \<noteq> 0" if "i < n" for i
    using that H2d[OF that] h by (simp add: smult_nth[OF H2(2)])
  moreover have "length (smult h H2) = n" using is_mat_smult[OF H2(2)] by (rule is_mat_length)
  ultimately obtain HI where HI: "linalg_inv (smult h H2) = Inr HI"
    by (simp add: linalg_inv_def)
  have In: "is_mat n I" using I(2) by (simp add: n_def)
  obtain Q1 where Q1: "set_leading b I Qu = Inr Q1" "is_mat n Q1"
    using set_leading_ok[OF In Qu bn] by blast
  obtain Q2 where Q2: "set_trailing b Q1 (mtranspose (flipud (fliplr Qu))) = Inr Q2" "is_mat n Q2"
    using set_trailing_ok[OF Q1(2) flipped_transposed[OF Qu] bn] by blast
  show ?thesis
    unfolding upwind_body_def n_def[symmetric]
    using b(1) z s1 s2 H1(1) H2(1) HI I(1) Q1(1) Q2 by (simp add: Let_def)
qed

section \<open>The tables of the upwind builders\<close>

lemma upwind_tables:
  "length H_bnd_3rd = 4" "\<forall>x\<in>set H_bnd_3rd. x \<noteq> 0" "is_mat 4 Qu_3rd"
  "length H_bnd_5th = 4" "\<forall>x\<in>set H_bnd_5th. x \<noteq> 0" "is_mat 4 Qu_5th"
  "length H_bnd_7th = 6" "\<forall>x\<in>set H_bnd_7th. x \<noteq> 0" "is_mat 6 Qu_7th"
  by (simp_all add: H_bnd_3rd_def H_bnd_5th_def H_bnd_7th_def Qu_3rd_def Qu_5th_def Qu_7th_def
      is_mat_def)

lemma corrected_sbp:
  assumes Q: "is_mat n (u_Qp s)" and Qm: "u_Qm s = mneg (mtranspose (u_Qp s))"
    and el: "length (u_e_l s) = n" and er: "length (u_e_r s) = n"
  shows "sbp_identity_corrected s"
proof -
  let ?El = "outer (u_e_l s) (u_e_l s)" and ?Er = "outer (u_e_r s) (u_e_r s)"
  have El: "is_mat n ?El" and Er: "is_mat n ?Er" using el er by (simp_all add: is_mat_outer)
  have T: "is_mat n (mtranspose (u_Qp s))" using Q by (rule is_mat_mtranspose)
  have N: "is_mat n (u_Qm s)" unfolding Qm using T by (rule is_mat_mneg)
  have c: "is_mat n (corrected s A)" if "is_mat n A" for A
    unfolding corrected_def by (intro is_mat_madd is_mat_msub is_mat_smult that El Er)
  have cn: "corrected s A ! i ! j = A ! i ! j - 0.5 * ?El ! i ! j + 0.5 * ?Er ! i ! j"
    if "is_mat n A" "i < n" "j < n" for A i j
    unfolding corrected_def using that
    by (simp add: madd_nth[OF is_mat_msub[OF that(1) is_mat_smult[OF El]] is_mat_smult[OF Er]]
        msub_nth[OF that(1) is_mat_smult[OF El]] smult_nth[OF El] smult_nth[OF Er])
  have B: "is_mat n (boundary_form s)" unfolding boundary_form_def by (intro is_mat_msub El Er)
  have "madd (corrected s (u_Qp s)) (mtranspose (corrected s (u_Qm s))) = boundary_form s"
  proof (rule mat_eqI[of n])
    show "is_mat n (madd (corrected s (u_Qp s)) (mtranspose (corrected s (u_Qm s))))"
      by (intro is_mat_madd is_mat_mtranspose c Q N)
    show "is_mat n (boundary_form s)" by (rule B)
    fix i j assume ij: "i < n" "j < n"
    have sym: "?El ! j ! i = ?El ! i ! j" "?Er ! j ! i = ?Er ! i ! j"
      using ij el er by (simp_all add: outer_nth)
    have "u_Qm s ! j ! i = - u_Qp s ! i ! j"
      unfolding Qm using ij by (simp add: mneg_nth[OF T] mtranspose_nth[OF Q])
    then have "madd (corrected s (u_Qp s)) (mtranspose (corrected s (u_Qm s))) ! i ! j
          = ?Er ! i ! j - ?El ! i ! j"
      using ij sym
      by (simp add: madd_nth[OF c[OF Q] is_mat_mtranspose[OF c[OF N]]]
          mtranspose_nth[OF c[OF N]] cn[OF Q] cn[OF N])
    then show "madd (corrected s (u_Qp s)) (mtranspose (corrected s (u_Qm s))) ! i ! j
          = boundary_form s ! i ! j"
      using ij by (simp add: boundary_form_def msub_nth[OF Er El])
  qed
  then show ?thesis by (simp add: sbp_identity_corrected_def)
qed

lemma upwind_body_sbp:
  assumes "length Hb = b" "0 < b" "int b \<le> m" "is_mat b Qu"
    "interior m = Inr I" "is_mat (nat m) I" "\<forall>x\<in>set Hb. x \<noteq> 0" "h \<noteq> 0"
  shows "\<exists>s. upwind_body Hb interior Qu m h = Inr s
           \<and> u_Qm s = mneg (mtranspose (u_Qp s))
           \<and> u_e_l s = (replicate (nat m) 0)[0 := 1]
           \<and> u_e_r s = (replicate (nat m) 0)[nat m - 1 := 1]
           \<and> sbp_identity_corrected s"
proof -
  obtain s where s: "upwind_body Hb interior Qu m h = Inr s" "is_mat (nat m) (u_Qp s)"
      "u_Qm s = mneg (mtranspose (u_Qp s))" "u_e_l s = (replicate (nat m) 0)[0 := 1]"
      "u_e_r s = (replicate (nat m) 0)[nat m - 1 := 1]"
    using upwind_body_ok[of Hb b m Qu interior I h] assms by blast
  have "sbp_identity_corrected s"
    using s(2,3) by (rule corrected_sbp) (simp_all add: s(4,5))
  with s show ?thesis by blast
qed

section \<open>The upwind summation-by-parts identity (C2)\<close>

text \<open>
  Claim C2, as amended. The specification states that for each upwind order 3, 5, 7
  the matrix \<open>Qp\<close> satisfies \<open>Qp + Qp\<^sup>T = e_r e_r\<^sup>T - e_l e_l\<^sup>T\<close>. The builders do
  not make such a \<open>Qp\<close>: its interior diagonal is \<open>-1/2\<close>, \<open>-1/3\<close> or \<open>-1/4\<close>, so
  \<open>Qp + Qp\<^sup>T\<close> is the dissipation part of the operator and not the boundary form.
  What the builders do satisfy, for every \<open>m\<close> that the boundary blocks fit into
  and every \<open>h > 0\<close>: \<open>e_l\<close> and \<open>e_r\<close> are the unit vectors at index 0 and
  \<open>m - 1\<close>, \<open>Qm = -Qp\<^sup>T\<close>, and the two matrices that are multiplied by \<open>HI\<close>
  satisfy \<open>(Qp - e_l e_l\<^sup>T/2 + e_r e_r\<^sup>T/2) + (Qm - e_l e_l\<^sup>T/2 + e_r e_r\<^sup>T/2)\<^sup>T
  = e_r e_r\<^sup>T - e_l e_l\<^sup>T\<close>.
\<close>

theorem upwind_corrected_sbp_identity:
  assumes "0 < h"
  shows "(4 \<le> m \<longrightarrow> (\<exists>s. upwind_body H_bnd_3rd interior_3rd Qu_3rd m h = Inr s
             \<and> u_Qm s = mneg (mtranspose (u_Qp s))
             \<and> u_e_l s = (replicate (nat m) 0)[0 := 1]
             \<and> u_e_r s = (replicate (nat m) 0)[nat m - 1 := 1]
             \<and> sbp_identity_corrected s))
       \<and> (4 \<le> m \<longrightarrow> (\<exists>s. upwind_body H_bnd_5th interior_5th Qu_5th m h = Inr s
             \<and> u_Qm s = mneg (mtranspose (u_Qp s))
             \<and> u_e_l s = (replicate (nat m) 0)[0 := 1]
             \<and> u_e_r s = (replicate (nat m) 0)[nat m - 1 := 1]
             \<and> sbp_identity_corrected s))
       \<and> (6 \<le> m \<longrightarrow> (\<exists>s. upwind_body H_bnd_7th interior_7th Qu_7th m h = Inr s
             \<and> u_Qm s = mneg (mtranspose (u_Qp s))
             \<and> u_e_l s = (replicate (nat m) 0)[0 := 1]
             \<and> u_e_r s = (replicate (nat m) 0)[nat m - 1 := 1]
             \<and> sbp_identity_corrected s))"
proof (intro conjI impI)
  have h: "h \<noteq> 0" using assms by simp
  { assume m: "4 \<le> m"
    obtain I where I: "interior_3rd m = Inr I" "is_mat (nat m) I"
      using interior_3rd_ok[of m] m by auto
    show "\<exists>s. upwind_body H_bnd_3rd interior_3rd Qu_3rd m h = Inr s
             \<and> u_Qm s = mneg (mtranspose (u_Qp s))
             \<and> u_e_l s = (replicate (nat m) 0)[0 := 1]
             \<and> u_e_r s = (replicate (nat m) 0)[nat m - 1 := 1]
             \<and> sbp_identity_corrected s"
      using upwind_tables(1) _ _ upwind_tables(3) I upwind_tables(2) h
      by (rule upwind_body_sbp) (use m in simp_all) }
  { assume m: "4 \<le> m"
    obtain I where I: "interior_5th m = Inr I" "is_mat (nat m) I"
      using interior_5th_ok[of m] m by auto
    show "\<exists>s. upwind_body H_bnd_5th interior_5th Qu_5th m h = Inr s
             \<and> u_Qm s = mneg (mtranspose (u_Qp s))
             \<and> u_e_l s = (replicate (nat m) 0)[0 := 1]
             \<and> u_e_r s = (replicate (nat m) 0)[nat m - 1 := 1]
             \<and> sbp_identity_corrected s"
      using upwind_tables(4) _ _ upwind_tables(6) I upwind_tables(5) h
      by (rule upwind_body_sbp) (use m in simp_all) }
  { assume m: "6 \<le> m"
    obtain I where I: "interior_7th m = Inr I" "is_mat (nat m) I"
      using interior_7th_ok[of m] m by auto
    show "\<exists>s. upwind_body H_bnd_7th interior_7th Qu_7th m h = Inr s
             \<and> u_Qm s = mneg (mtranspose (u_Qp s))
             \<and> u_e_l s = (replicate (nat m) 0)[0 := 1]
             \<and> u_e_r s = (replicate (nat m) 0)[nat m - 1 := 1]
             \<and> sbp_identity_corrected s"
      using upwind_tables(7) _ _ upwind_tables(9) I upwind_tables(8) h
      by (rule upwind_body_sbp) (use m in simp_all) }
qed

theorem upwind_corrected_sbp_identity_witness:
  "(\<exists>s. upwind_body H_bnd_3rd interior_3rd Qu_3rd 9 1 = Inr s
             \<and> u_Qm s = mneg (mtranspose (u_Qp s)) \<and> sbp_identity_corrected s)
   \<and> (\<exists>s. upwind_body H_bnd_5th interior_5th Qu_5th 9 1 = Inr s
             \<and> u_Qm s = mneg (mtranspose (u_Qp s)) \<and> sbp_identity_corrected s)
   \<and> (\<exists>s. upwind_body H_bnd_7th interior_7th Qu_7th 9 1 = Inr s
             \<and> u_Qm s = mneg (mtranspose (u_Qp s)) \<and> sbp_identity_corrected s)"
  using upwind_corrected_sbp_identity [of 1 9] by auto

text \<open>
  The identity of claim C2 as the specification states it fails for the third-order
  builder on nine points: \<open>Qp + Qp\<^sup>T\<close> has \<open>-1\<close> at position \<open>(4, 4)\<close>, where
  \<open>e_r e_r\<^sup>T - e_l e_l\<^sup>T\<close> has \<open>0\<close>.
\<close>

theorem upwind_sbp_identity_counterexample:
  "map_sum id sbp_identity_Qp (upwind_body H_bnd_3rd interior_3rd Qu_3rd 9 1) = Inr False"
  by code_simp

section \<open>Grids that are too small (C3)\<close>

lemma sbp_upwind_small:
  "m < 4 \<Longrightarrow> sbp_upwind_3rd m h = Inl (if m = 0 then IndexError else ValueError)"
  "m < 4 \<Longrightarrow> sbp_upwind_5th m h = Inl (if m = 0 then IndexError else ValueError)"
  "m < 6 \<Longrightarrow> sbp_upwind_7th m h = Inl (if m = 0 then IndexError else ValueError)"
  using upwind_body_small[of m H_bnd_3rd interior_3rd Qu_3rd h]
    upwind_body_small[of m H_bnd_5th interior_5th Qu_5th h]
    upwind_body_small[of m H_bnd_7th interior_7th Qu_7th h]
  by (simp_all add: sbp_upwind_3rd_def sbp_upwind_5th_def sbp_upwind_7th_def upwind_tables)

lemma sbp_upwind_returns:
  assumes "h \<noteq> 0"
  shows "4 \<le> m \<Longrightarrow> \<not> isl (sbp_upwind_3rd m h)"
    "4 \<le> m \<Longrightarrow> \<not> isl (sbp_upwind_5th m h)"
    "6 \<le> m \<Longrightarrow> \<not> isl (sbp_upwind_7th m h)"
proof -
  { assume m: "4 \<le> m"
    obtain I where I: "interior_3rd m = Inr I" "is_mat (nat m) I"
      using interior_3rd_ok[of m] m by auto
    have "\<exists>s. upwind_body H_bnd_3rd interior_3rd Qu_3rd m h = Inr s"
      using upwind_body_ok[of H_bnd_3rd 4 m Qu_3rd interior_3rd I h] upwind_tables I assms m
      by auto
    then show "\<not> isl (sbp_upwind_3rd m h)" by (auto simp: sbp_upwind_3rd_def) }
  { assume m: "4 \<le> m"
    obtain I where I: "interior_5th m = Inr I" "is_mat (nat m) I"
      using interior_5th_ok[of m] m by auto
    have "\<exists>s. upwind_body H_bnd_5th interior_5th Qu_5th m h = Inr s"
      using upwind_body_ok[of H_bnd_5th 4 m Qu_5th interior_5th I h] upwind_tables I assms m
      by auto
    then show "\<not> isl (sbp_upwind_5th m h)" by (auto simp: sbp_upwind_5th_def) }
  { assume m: "6 \<le> m"
    obtain I where I: "interior_7th m = Inr I" "is_mat (nat m) I"
      using interior_7th_ok[of m] m by auto
    have "\<exists>s. upwind_body H_bnd_7th interior_7th Qu_7th m h = Inr s"
      using upwind_body_ok[of H_bnd_7th 6 m Qu_7th interior_7th I h] upwind_tables I assms m
      by auto
    then show "\<not> isl (sbp_upwind_7th m h)" by (auto simp: sbp_upwind_7th_def) }
qed

lemma upwind_body_singular:
  assumes b: "length Hb = b" "0 < b" "int b \<le> m"
  shows "upwind_body Hb interior Qu m 0 = Inl LinAlgError"
proof -
  define n where "n = nat m"
  have bn: "b \<le> n" and m0: "0 < m" and n0: "0 < n" using b by (simp_all add: n_def)
  have z: "zeros m = Inr (replicate n 0)" "ones m = Inr (replicate n 1)"
    using m0 by (simp_all add: zeros_def ones_def n_def)
  have s1: "setitem (replicate n 0) 0 1 = Inr ((replicate n 0)[0 := 1])"
    using unit_vectors(1)[OF m0] z by (simp add: n_def)
  have s2: "setitem (replicate n 0) (-1) 1 = Inr ((replicate n 0)[n - 1 := 1])"
    using unit_vectors(2)[OF m0] z by (simp add: n_def)
  have D1: "is_mat n (diag (replicate n 1))" using is_mat_diag[of "replicate n 1"] by simp
  have DH: "is_mat b (diag Hb)" using is_mat_diag[of Hb] b(1) by simp
  obtain H1 where H1: "set_leading b (diag (replicate n 1)) (diag Hb) = Inr H1" "is_mat n H1"
    using set_leading_ok[OF D1 DH bn] by blast
  note F = flipped_block[OF H1(2) bn]
  obtain H2 where H2: "set_trailing b H1 (fliplr (flipud (get_leading b H1))) = Inr H2" "is_mat n H2"
    using set_trailing_ok[OF H1(2) F(1) bn] by blast
  have "smult 0 H2 ! 0 ! 0 = 0" using n0 by (simp add: smult_nth[OF H2(2)])
  moreover have "length (smult 0 H2) = n" using is_mat_smult[OF H2(2)] by (rule is_mat_length)
  ultimately have "\<exists>i \<in> set [0..<length (smult 0 H2)]. smult 0 H2 ! i ! i = 0"
    using n0 by (intro bexI[of _ 0]) simp_all
  then have HI: "linalg_inv (smult 0 H2) = Inl LinAlgError"
    unfolding linalg_inv_def by (simp only: if_True)
  show ?thesis
    unfolding upwind_body_def n_def[symmetric]
    using b(1) z s1 s2 H1(1) H2(1) HI by (simp add: Let_def)
qed

lemma sbp_upwind_singular:
  "4 \<le> m \<Longrightarrow> sbp_upwind_3rd m 0 = Inl LinAlgError"
  "4 \<le> m \<Longrightarrow> sbp_upwind_5th m 0 = Inl LinAlgError"
  "6 \<le> m \<Longrightarrow> sbp_upwind_7th m 0 = Inl LinAlgError"
  using upwind_body_singular[of H_bnd_3rd 4 m interior_3rd Qu_3rd]
    upwind_body_singular[of H_bnd_5th 4 m interior_5th Qu_5th]
    upwind_body_singular[of H_bnd_7th 6 m interior_7th Qu_7th]
  by (simp_all add: sbp_upwind_3rd_def sbp_upwind_5th_def sbp_upwind_7th_def upwind_tables)

text \<open>
  Claim C3, as amended. The specification asks every builder to raise
  \<open>InvalidGridSize\<close> when \<open>m\<close> is too small for the stencil or closure to fit
  without overlap (\<open>m \<le> 2 l\<close>, \<open>m \<le> 2 b\<close>). The code has no such check and no
  such exception. What it does: \<open>periodic_expl\<close> raises NumPy's \<open>IndexError\<close>
  (\<open>ValueError\<close> for a negative \<open>m\<close>) when \<open>m\<close> is at most the half-width \<open>l\<close> of
  the order, and \<open>periodic_variable_wide\<close> fails with it; both return for every
  larger \<open>m\<close>, also for \<open>l < m \<le> 2 l\<close> where the two halves of the stencil
  overlap. \<open>periodic_imp\<close> raises the same errors when \<open>m \<le> 5\<close> without
  dissipation and when \<open>m \<le> 6\<close> with dissipation (whose stencil has half-width
  6), and returns for every larger \<open>m\<close>. An upwind builder raises \<open>ValueError\<close>
  (\<open>IndexError\<close> for \<open>m = 0\<close>) when \<open>m\<close> is below the block size \<open>b\<close> (4 for the
  orders 3 and 5, 6 for order 7); for \<open>m \<ge> b\<close> it returns when \<open>h \<noteq> 0\<close> and
  raises \<open>LinAlgError\<close> from \<open>np.linalg.inv\<close> when \<open>h = 0\<close>. In particular
  \<open>periodic_expl\<close> with \<open>m = 2\<close> and \<open>order = 12\<close> fails with \<open>IndexError\<close>.
\<close>

theorem small_grids_raise:
  "(order \<in> {2, 4, 6, 8, 10, 12} \<longrightarrow>
      (m \<le> half_width order \<longrightarrow>
         periodic_expl m h order use_AD = Inl (if m < 0 then ValueError else IndexError)
         \<and> isl (periodic_variable_wide m h order))
      \<and> (half_width order < m \<longrightarrow>
         \<not> isl (periodic_expl m h order use_AD) \<and> \<not> isl (periodic_variable_wide m h order)))
   \<and> (m \<le> (if use_AD then 6 else 5) \<longrightarrow>
        periodic_imp m h use_AD = Inl (if m < 0 then ValueError else IndexError))
   \<and> ((if use_AD then 6 else 5) < m \<longrightarrow> \<not> isl (periodic_imp m h use_AD))
   \<and> (m < 4 \<longrightarrow> sbp_upwind_3rd m h = Inl (if m = 0 then IndexError else ValueError)
                 \<and> sbp_upwind_5th m h = Inl (if m = 0 then IndexError else ValueError))
   \<and> (m < 6 \<longrightarrow> sbp_upwind_7th m h = Inl (if m = 0 then IndexError else ValueError))
   \<and> (4 \<le> m \<and> h \<noteq> 0 \<longrightarrow> \<not> isl (sbp_upwind_3rd m h) \<and> \<not> isl (sbp_upwind_5th m h))
   \<and> (6 \<le> m \<and> h \<noteq> 0 \<longrightarrow> \<not> isl (sbp_upwind_7th m h))
   \<and> (4 \<le> m \<and> h = 0 \<longrightarrow> sbp_upwind_3rd m h = Inl LinAlgError
                           \<and> sbp_upwind_5th m h = Inl LinAlgError)
   \<and> (6 \<le> m \<and> h = 0 \<longrightarrow> sbp_upwind_7th m h = Inl LinAlgError)
   \<and> periodic_expl 2 h 12 use_AD = Inl IndexError"
proof -
  have expl: "(m \<le> half_width order \<longrightarrow>
         periodic_expl m h order use_AD = Inl (if m < 0 then ValueError else IndexError)
         \<and> isl (periodic_variable_wide m h order))
      \<and> (half_width order < m \<longrightarrow>
         \<not> isl (periodic_expl m h order use_AD) \<and> \<not> isl (periodic_variable_wide m h order))"
    if sup: "order \<in> {2, 4, 6, 8, 10, 12}"
  proof -
    obtain d l where st: "expl_stencil order = Inr (d, l, l)"
      using sup by (rule expl_stencil_supported)
    have hw: "half_width order = l" using st by (rule half_width_eq)
    have "periodic_expl m h order ad = Inl (if m < 0 then ValueError else IndexError)"
      if "m \<le> l" for ad using st that by (rule periodic_expl_small)
    moreover have "\<not> isl (periodic_expl m h order ad)" if "l < m" for ad
      using periodic_expl_returns[OF st that, of h ad] by auto
    ultimately show ?thesis unfolding hw
      by (auto simp: periodic_variable_wide_def isl_def ebind_def split: sum.splits)
  qed
  have twelve: "periodic_expl 2 h 12 use_AD = Inl IndexError"
    using periodic_expl_small[of 12 _ 6 6 2 h use_AD] by (simp add: expl_stencil_def)
  have imp_small: "periodic_imp m h use_AD = Inl (if m < 0 then ValueError else IndexError)"
    if "m \<le> (if use_AD then 6 else 5)"
  proof (cases "m \<le> 5")
    case True
    then show ?thesis by (rule periodic_imp_small)
  next
    case False
    with that have "m = 6" "use_AD" by (auto split: if_splits)
    then show ?thesis using periodic_imp_six[of h] by simp
  qed
  have imp: "\<not> isl (periodic_imp m h use_AD)" if "(if use_AD then 6 else 5) < m"
  proof (cases use_AD)
    case True
    then have "6 < m" using that by simp
    then show ?thesis using periodic_imp_returns_dissipated[of m h] True by auto
  next
    case False
    then have "5 < m" using that by simp
    then show ?thesis using periodic_imp_returns_plain[of m h] False by auto
  qed
  show ?thesis
    using expl twelve imp imp_small sbp_upwind_small[of m h]
      sbp_upwind_returns[of h m] sbp_upwind_singular[of m]
    by (intro conjI impI) auto
qed

theorem small_grids_raise_witness:
  "periodic_expl 3 1 12 True = Inl IndexError
   \<and> isl (periodic_variable_wide 3 1 12)
   \<and> \<not> isl (periodic_expl 7 1 12 True)
   \<and> \<not> isl (periodic_variable_wide 7 1 12)
   \<and> periodic_imp 3 1 True = Inl IndexError
   \<and> \<not> isl (periodic_imp 7 1 True)
   \<and> sbp_upwind_3rd 3 1 = Inl ValueError
   \<and> sbp_upwind_5th 3 1 = Inl ValueError
   \<and> sbp_upwind_7th 3 1 = Inl ValueError
   \<and> \<not> isl (sbp_upwind_3rd 7 1) \<and> \<not> isl (sbp_upwind_5th 7 1) \<and> \<not> isl (sbp_upwind_7th 7 1)
   \<and> periodic_expl 2 1 12 True = Inl IndexError"
  using small_grids_raise [of 12 3 1 True] small_grids_raise [of 12 7 1 True]
  by (simp add: half_width_def expl_stencil_def)

text \<open>
  Claim C3 as the specification states it fails: with \<open>m = 7 \<le> 2 \<cdot> 6\<close> and
  \<open>order = 12\<close>, \<open>periodic_expl\<close> raises nothing and returns its matrices, and the
  third-order upwind builder returns for \<open>m = 5 \<le> 2 \<cdot> 4\<close>.
\<close>

theorem invalid_grid_size_counterexample:
  "\<not> isl (periodic_expl 7 1 12 False) \<and> \<not> isl (sbp_upwind_3rd 5 1)"
proof -
  have "\<not> isl (periodic_expl 7 1 12 False)"
    using periodic_expl_returns[of 12 _ 6 6 7 1 False] by (auto simp: expl_stencil_def)
  moreover have "\<not> isl (sbp_upwind_3rd 5 1)"
    using sbp_upwind_returns(1)[of 1 5] by simp
  ultimately show ?thesis by simp
qed

section \<open>Sums over a period\<close>

lemma periodic_sum_shift:
  fixes f :: "nat \<Rightarrow> real"
  assumes "\<And>i. f (i + m) = f i"
  shows "(\<Sum>i<m. f (i + a)) = (\<Sum>i<m. f i)"
proof (induction a)
  case 0
  then show ?case by simp
next
  case (Suc a)
  have s: "(\<Sum>i<Suc m. f (i + a)) = f (0 + a) + (\<Sum>i<m. f (Suc i + a))"
    by (rule sum.lessThan_Suc_shift)
  have t: "(\<Sum>i<Suc m. f (i + a)) = (\<Sum>i<m. f (i + a)) + f (m + a)"
    by simp
  have "f (m + a) = f a" using assms[of a] by (simp add: add.commute)
  with s t have "(\<Sum>i<m. f (Suc i + a)) = (\<Sum>i<m. f (i + a))" by simp
  then show ?case using Suc by simp
qed

lemma cyc_periodic: "cyc x (i + length x) = cyc x i"
  by (simp add: cyc_def)

lemma cyc_periodic_add: "cyc x (i + length x + k) = cyc x (i + k)"
proof -
  have "i + length x + k = (i + k) + length x" by simp
  then show ?thesis by (simp only: cyc_periodic)
qed

lemma cyc_nth: "i < length x \<Longrightarrow> cyc x i = x ! i"
  by (simp add: cyc_def)

lemma autocorr_shift:
  "(\<Sum>i<length x. cyc x (i + a) * cyc x (i + a + k)) = autocorr x k"
proof -
  have "(\<Sum>i<length x. cyc x (i + a) * cyc x (i + a + k))
        = (\<Sum>i<length x. cyc x i * cyc x (i + k))"
    by (rule periodic_sum_shift[of "\<lambda>i. cyc x i * cyc x (i + k)" "length x" a])
       (simp add: cyc_periodic cyc_periodic_add)
  then show ?thesis by (simp add: autocorr_def)
qed

lemma autocorr_shift2:
  assumes "a \<le> b"
  shows "(\<Sum>i<length x. cyc x (i + a) * cyc x (i + b)) = autocorr x (b - a)"
    and "(\<Sum>i<length x. cyc x (i + b) * cyc x (i + a)) = autocorr x (b - a)"
proof -
  have e: "i + b = i + a + (b - a)" for i using assms by simp
  show "(\<Sum>i<length x. cyc x (i + a) * cyc x (i + b)) = autocorr x (b - a)"
    unfolding e by (rule autocorr_shift)
  then show "(\<Sum>i<length x. cyc x (i + b) * cyc x (i + a)) = autocorr x (b - a)"
    by (simp add: mult.commute)
qed

lemma autocorr_mirror:
  assumes "k \<le> length x"
  shows "autocorr x (length x - k) = autocorr x k"
proof -
  have "autocorr x (length x - k) = (\<Sum>i<length x. cyc x (i + k) * cyc x (i + k + (length x - k)))"
    by (rule autocorr_shift[symmetric])
  also have "\<dots> = (\<Sum>i<length x. cyc x (i + k) * cyc x i)"
  proof (rule sum.cong[OF refl])
    fix i
    have "i + k + (length x - k) = i + length x" using assms by simp
    then show "cyc x (i + k) * cyc x (i + k + (length x - k)) = cyc x (i + k) * cyc x i"
      by (simp only: cyc_periodic)
  qed
  also have "\<dots> = autocorr x k" by (simp add: autocorr_def mult.commute)
  finally show ?thesis .
qed

section \<open>The quadratic form of a circulant matrix\<close>

lemma quadform_circulant:
  assumes "length w = length x"
  shows "quadform (circulant w) x = (\<Sum>k<length x. w ! k * autocorr x k)"
proof -
  define m where "m = length x"
  have lw: "length w = m" using assms by (simp add: m_def)
  have row: "(\<Sum>j<m. x ! i * circulant w ! i ! j * x ! j)
             = (\<Sum>j<m. w ! j * (cyc x i * cyc x (i + j)))" if i: "i < m" for i
  proof -
    let ?g = "\<lambda>j. cyc w (j + (m - i)) * cyc x j"
    have per: "?g (j + m) = ?g j" for j
    proof -
      have "j + m + (m - i) = (j + (m - i)) + length w" by (simp add: lw)
      then have "cyc w (j + m + (m - i)) = cyc w (j + (m - i))" by (simp only: cyc_periodic)
      moreover have "cyc x (j + m) = cyc x j" using cyc_periodic[of x j] by (simp add: m_def)
      ultimately show ?thesis by simp
    qed
    have "(\<Sum>j<m. x ! i * circulant w ! i ! j * x ! j) = (\<Sum>j<m. x ! i * ?g j)"
    proof (rule sum.cong[OF refl])
      fix j assume "j \<in> {..<m}"
      then have j: "j < m" by simp
      have "circulant w ! i ! j = w ! ((j + length w - i) mod length w)"
        using i j lw by (intro circulant_nth) simp_all
      also have "j + length w - i = j + (m - i)" using i lw by simp
      finally have "circulant w ! i ! j = cyc w (j + (m - i))" by (simp add: cyc_def lw)
      then show "x ! i * circulant w ! i ! j * x ! j = x ! i * ?g j"
        using j by (simp add: cyc_nth m_def)
    qed
    also have "\<dots> = x ! i * (\<Sum>j<m. ?g j)" by (simp add: sum_distrib_left)
    also have "(\<Sum>j<m. ?g j) = (\<Sum>j<m. ?g (j + i))"
      using periodic_sum_shift[of ?g m i] per by simp
    also have "\<dots> = (\<Sum>j<m. w ! j * cyc x (i + j))"
    proof (rule sum.cong[OF refl])
      fix j assume "j \<in> {..<m}"
      then have j: "j < m" by simp
      have "j + i + (m - i) = j + length w" using i lw by simp
      then have "cyc w (j + i + (m - i)) = cyc w j" by (simp only: cyc_periodic)
      then show "?g (j + i) = w ! j * cyc x (i + j)"
        using j lw by (simp add: cyc_nth add.commute)
    qed
    finally show ?thesis using i by (simp add: sum_distrib_left cyc_nth m_def mult_ac)
  qed
  have "quadform (circulant w) x = (\<Sum>i<m. \<Sum>j<m. x ! i * circulant w ! i ! j * x ! j)"
    by (simp add: quadform_def m_def)
  also have "\<dots> = (\<Sum>i<m. \<Sum>j<m. w ! j * (cyc x i * cyc x (i + j)))"
    by (rule sum.cong[OF refl]) (simp add: row)
  also have "\<dots> = (\<Sum>j<m. \<Sum>i<m. w ! j * (cyc x i * cyc x (i + j)))"
    by (rule sum.swap)
  also have "\<dots> = (\<Sum>j<m. w ! j * autocorr x j)"
    by (simp add: autocorr_def sum_distrib_left m_def)
  finally show ?thesis by (simp add: m_def)
qed

lemma quadform_smult:
  assumes "is_mat (length x) A"
  shows "quadform (smult h A) x = h * quadform A x"
proof -
  have "(\<Sum>i<length x. \<Sum>j<length x. x ! i * smult h A ! i ! j * x ! j)
        = (\<Sum>i<length x. \<Sum>j<length x. h * (x ! i * A ! i ! j * x ! j))"
    by (intro sum.cong refl) (simp add: smult_nth[OF assms])
  then show ?thesis by (simp add: quadform_def sum_distrib_left)
qed

lemma autocorr_zero_pos:
  assumes "x \<noteq> replicate (length x) 0"
  shows "0 < autocorr x 0"
proof -
  have "\<exists>i<length x. x ! i \<noteq> 0"
  proof (rule ccontr)
    assume "\<not> (\<exists>i<length x. x ! i \<noteq> 0)"
    then have "x = replicate (length x) 0" by (intro nth_equalityI) auto
    with assms show False by simp
  qed
  then obtain i where i: "i < length x" "x ! i \<noteq> 0" by blast
  have "autocorr x 0 = (\<Sum>i<length x. x ! i * x ! i)"
    by (simp add: autocorr_def cyc_nth)
  also have "\<dots> > 0"
  proof (rule sum_pos2[of _ i])
    show "finite {..<length x}" by simp
    show "i \<in> {..<length x}" using i by simp
    have "0 < (x ! i)\<^sup>2" using i(2) by simp
    then show "0 < x ! i * x ! i" by (simp add: power2_eq_square)
    show "\<And>j. j \<in> {..<length x} \<Longrightarrow> 0 \<le> x ! j * x ! j" by simp
  qed
  finally show ?thesis .
qed

section \<open>A sum-of-squares certificate for the norm of the implicit operator\<close>

lemma window_square_pointwise:
  fixes y0 y1 y2 y3 y4 y5 :: real
  shows "(y0 + 11 * y1 - 46 * y2 - 49 * y3 + 507 * y4 + 573 * y5)\<^sup>2
         = 1 * (y0 * y0) + 121 * (y1 * y1) + 2116 * (y2 * y2) + 2401 * (y3 * y3) + 257049 * (y4 * y4) + 328329 * (y5 * y5) + 22 * (y0 * y1) + (- 92) * (y0 * y2) + (- 98) * (y0 * y3) + 1014 * (y0 * y4) + 1146 * (y0 * y5) + (- 1012) * (y1 * y2) + (- 1078) * (y1 * y3) + 11154 * (y1 * y4) + 12606 * (y1 * y5) + 4508 * (y2 * y3) + (- 46644) * (y2 * y4) + (- 52716) * (y2 * y5) + (- 49686) * (y3 * y4) + (- 56154) * (y3 * y5) + 581022 * (y4 * y5)"
  by (simp add: power2_eq_square algebra_simps)

lemma shifted_products:
    "(\<Sum>i<length x. cyc x (i + 0) * cyc x (i + 0)) = autocorr x 0"
    "(\<Sum>i<length x. cyc x (i + 0) * cyc x (i + 1)) = autocorr x 1"
    "(\<Sum>i<length x. cyc x (i + 0) * cyc x (i + 2)) = autocorr x 2"
    "(\<Sum>i<length x. cyc x (i + 0) * cyc x (i + 3)) = autocorr x 3"
    "(\<Sum>i<length x. cyc x (i + 0) * cyc x (i + 4)) = autocorr x 4"
    "(\<Sum>i<length x. cyc x (i + 0) * cyc x (i + 5)) = autocorr x 5"
    "(\<Sum>i<length x. cyc x (i + 1) * cyc x (i + 1)) = autocorr x 0"
    "(\<Sum>i<length x. cyc x (i + 1) * cyc x (i + 2)) = autocorr x 1"
    "(\<Sum>i<length x. cyc x (i + 1) * cyc x (i + 3)) = autocorr x 2"
    "(\<Sum>i<length x. cyc x (i + 1) * cyc x (i + 4)) = autocorr x 3"
    "(\<Sum>i<length x. cyc x (i + 1) * cyc x (i + 5)) = autocorr x 4"
    "(\<Sum>i<length x. cyc x (i + 2) * cyc x (i + 2)) = autocorr x 0"
    "(\<Sum>i<length x. cyc x (i + 2) * cyc x (i + 3)) = autocorr x 1"
    "(\<Sum>i<length x. cyc x (i + 2) * cyc x (i + 4)) = autocorr x 2"
    "(\<Sum>i<length x. cyc x (i + 2) * cyc x (i + 5)) = autocorr x 3"
    "(\<Sum>i<length x. cyc x (i + 3) * cyc x (i + 3)) = autocorr x 0"
    "(\<Sum>i<length x. cyc x (i + 3) * cyc x (i + 4)) = autocorr x 1"
    "(\<Sum>i<length x. cyc x (i + 3) * cyc x (i + 5)) = autocorr x 2"
    "(\<Sum>i<length x. cyc x (i + 4) * cyc x (i + 4)) = autocorr x 0"
    "(\<Sum>i<length x. cyc x (i + 4) * cyc x (i + 5)) = autocorr x 1"
    "(\<Sum>i<length x. cyc x (i + 5) * cyc x (i + 5)) = autocorr x 0"
  by ((subst autocorr_shift2(1); simp)+)

lemma window_square_sum:
  "(\<Sum>i<length x. (cyc x (i + 0) + 11 * cyc x (i + 1) - 46 * cyc x (i + 2) - 49 * cyc x (i + 3) + 507 * cyc x (i + 4) + 573 * cyc x (i + 5))\<^sup>2)
   = 590017 * autocorr x 0 + 534854 * autocorr x 1 + (- 103968) * autocorr x 2 + (- 41660) * autocorr x 3 + 13620 * autocorr x 4 + 1146 * autocorr x 5"
proof -
  have "(\<Sum>i<length x. (cyc x (i + 0) + 11 * cyc x (i + 1) - 46 * cyc x (i + 2) - 49 * cyc x (i + 3) + 507 * cyc x (i + 4) + 573 * cyc x (i + 5))\<^sup>2)
        = (\<Sum>i<length x. 1 * (cyc x (i + 0) * cyc x (i + 0)) + 121 * (cyc x (i + 1) * cyc x (i + 1)) + 2116 * (cyc x (i + 2) * cyc x (i + 2)) + 2401 * (cyc x (i + 3) * cyc x (i + 3)) + 257049 * (cyc x (i + 4) * cyc x (i + 4)) + 328329 * (cyc x (i + 5) * cyc x (i + 5)) + 22 * (cyc x (i + 0) * cyc x (i + 1)) + (- 92) * (cyc x (i + 0) * cyc x (i + 2)) + (- 98) * (cyc x (i + 0) * cyc x (i + 3)) + 1014 * (cyc x (i + 0) * cyc x (i + 4)) + 1146 * (cyc x (i + 0) * cyc x (i + 5)) + (- 1012) * (cyc x (i + 1) * cyc x (i + 2)) + (- 1078) * (cyc x (i + 1) * cyc x (i + 3)) + 11154 * (cyc x (i + 1) * cyc x (i + 4)) + 12606 * (cyc x (i + 1) * cyc x (i + 5)) + 4508 * (cyc x (i + 2) * cyc x (i + 3)) + (- 46644) * (cyc x (i + 2) * cyc x (i + 4)) + (- 52716) * (cyc x (i + 2) * cyc x (i + 5)) + (- 49686) * (cyc x (i + 3) * cyc x (i + 4)) + (- 56154) * (cyc x (i + 3) * cyc x (i + 5)) + 581022 * (cyc x (i + 4) * cyc x (i + 5)))"
    by (simp only: window_square_pointwise)
  also have "\<dots> = 1 * (\<Sum>i<length x. cyc x (i + 0) * cyc x (i + 0)) + 121 * (\<Sum>i<length x. cyc x (i + 1) * cyc x (i + 1)) + 2116 * (\<Sum>i<length x. cyc x (i + 2) * cyc x (i + 2)) + 2401 * (\<Sum>i<length x. cyc x (i + 3) * cyc x (i + 3)) + 257049 * (\<Sum>i<length x. cyc x (i + 4) * cyc x (i + 4)) + 328329 * (\<Sum>i<length x. cyc x (i + 5) * cyc x (i + 5)) + 22 * (\<Sum>i<length x. cyc x (i + 0) * cyc x (i + 1)) + (- 92) * (\<Sum>i<length x. cyc x (i + 0) * cyc x (i + 2)) + (- 98) * (\<Sum>i<length x. cyc x (i + 0) * cyc x (i + 3)) + 1014 * (\<Sum>i<length x. cyc x (i + 0) * cyc x (i + 4)) + 1146 * (\<Sum>i<length x. cyc x (i + 0) * cyc x (i + 5)) + (- 1012) * (\<Sum>i<length x. cyc x (i + 1) * cyc x (i + 2)) + (- 1078) * (\<Sum>i<length x. cyc x (i + 1) * cyc x (i + 3)) + 11154 * (\<Sum>i<length x. cyc x (i + 1) * cyc x (i + 4)) + 12606 * (\<Sum>i<length x. cyc x (i + 1) * cyc x (i + 5)) + 4508 * (\<Sum>i<length x. cyc x (i + 2) * cyc x (i + 3)) + (- 46644) * (\<Sum>i<length x. cyc x (i + 2) * cyc x (i + 4)) + (- 52716) * (\<Sum>i<length x. cyc x (i + 2) * cyc x (i + 5)) + (- 49686) * (\<Sum>i<length x. cyc x (i + 3) * cyc x (i + 4)) + (- 56154) * (\<Sum>i<length x. cyc x (i + 3) * cyc x (i + 5)) + 581022 * (\<Sum>i<length x. cyc x (i + 4) * cyc x (i + 5))"
    by (simp only: sum.distrib sum_distrib_left)
  also have "\<dots> = 1 * autocorr x 0 + 121 * autocorr x 0 + 2116 * autocorr x 0 + 2401 * autocorr x 0 + 257049 * autocorr x 0 + 328329 * autocorr x 0 + 22 * autocorr x 1 + (- 92) * autocorr x 2 + (- 98) * autocorr x 3 + 1014 * autocorr x 4 + 1146 * autocorr x 5 + (- 1012) * autocorr x 1 + (- 1078) * autocorr x 2 + 11154 * autocorr x 3 + 12606 * autocorr x 4 + 4508 * autocorr x 1 + (- 46644) * autocorr x 2 + (- 52716) * autocorr x 3 + (- 49686) * autocorr x 1 + (- 56154) * autocorr x 2 + 581022 * autocorr x 1"
    by (simp only: shifted_products)
  also have "\<dots> = 590017 * autocorr x 0 + 534854 * autocorr x 1 + (- 103968) * autocorr x 2 + (- 41660) * autocorr x 3 + 13620 * autocorr x 4 + 1146 * autocorr x 5"
    by simp
  finally show ?thesis .
qed

lemma autocorr_bounds:
  "- autocorr x 0 \<le> autocorr x k" "autocorr x k \<le> autocorr x 0"
proof -
  have sq: "(\<Sum>i<length x. cyc x (i + k) * cyc x (i + k)) = autocorr x 0"
    using autocorr_shift[of x k 0] by simp
  have "0 \<le> (\<Sum>i<length x. (cyc x i + cyc x (i + k))\<^sup>2)" by (intro sum_nonneg) simp
  also have "(\<Sum>i<length x. (cyc x i + cyc x (i + k))\<^sup>2)
      = (\<Sum>i<length x. cyc x i * cyc x (i + 0)) + 2 * (\<Sum>i<length x. cyc x i * cyc x (i + k))
        + (\<Sum>i<length x. cyc x (i + k) * cyc x (i + k))"
    by (simp add: power2_eq_square algebra_simps sum.distrib sum_distrib_left)
  finally show "- autocorr x 0 \<le> autocorr x k"
    unfolding sq by (simp add: autocorr_def)
  have "0 \<le> (\<Sum>i<length x. (cyc x i - cyc x (i + k))\<^sup>2)" by (intro sum_nonneg) simp
  also have "(\<Sum>i<length x. (cyc x i - cyc x (i + k))\<^sup>2)
      = (\<Sum>i<length x. cyc x i * cyc x (i + 0)) - 2 * (\<Sum>i<length x. cyc x i * cyc x (i + k))
        + (\<Sum>i<length x. cyc x (i + k) * cyc x (i + k))"
    by (simp add: power2_eq_square algebra_simps sum.distrib sum_subtractf sum_distrib_left)
  finally show "autocorr x k \<le> autocorr x 0"
    unfolding sq by (simp add: autocorr_def)
qed

section \<open>The norm matrix of the implicit operator is positive definite\<close>

lemma sum_split_shift:
  fixes g :: "nat \<Rightarrow> real"
  shows "(\<Sum>k<a + b. g k) = (\<Sum>k<a. g k) + (\<Sum>k<b. g (a + k))"
  by (induction b) (simp_all add: add.assoc[symmetric])

lemma sum_upto_6:
  fixes g :: "nat \<Rightarrow> real"
  shows "(\<Sum>k<6. g k) = g 0 + g 1 + g 2 + g 3 + g 4 + g 5"
  by (simp add: eval_nat_numeral)

lemma sum_upto_5:
  fixes g :: "nat \<Rightarrow> real"
  shows "(\<Sum>k<5. g k) = g 0 + g 1 + g 2 + g 3 + g 4"
  by (simp add: eval_nat_numeral)

lemma wrapped_weighted_sum:
  fixes f :: "nat \<Rightarrow> real"
  shows "(\<Sum>k<length A + (z + length C). (A @ replicate z 0 @ C) ! k * f k)
         = (\<Sum>k<length A. A ! k * f k) + (\<Sum>k<length C. C ! k * f (length A + (z + k)))"
proof -
  let ?w = "A @ replicate z 0 @ C"
  have "(\<Sum>k<length A + (z + length C). ?w ! k * f k)
        = (\<Sum>k<length A. ?w ! k * f k) + (\<Sum>k<z + length C. ?w ! (length A + k) * f (length A + k))"
    by (rule sum_split_shift)
  also have "(\<Sum>k<length A. ?w ! k * f k) = (\<Sum>k<length A. A ! k * f k)"
    by (intro sum.cong refl) (simp add: nth_append)
  also have "(\<Sum>k<z + length C. ?w ! (length A + k) * f (length A + k))
        = (\<Sum>k<z + length C. (replicate z 0 @ C) ! k * f (length A + k))"
    by (intro sum.cong refl) (simp add: nth_append)
  also have "\<dots> = (\<Sum>k<z. (replicate z 0 @ C) ! k * f (length A + k))
        + (\<Sum>k<length C. (replicate z 0 @ C) ! (z + k) * f (length A + (z + k)))"
    by (rule sum_split_shift)
  also have "(\<Sum>k<z. (replicate z 0 @ C) ! k * f (length A + k)) = 0"
    by (intro sum.neutral) (simp add: nth_append)
  also have "(\<Sum>k<length C. (replicate z 0 @ C) ! (z + k) * f (length A + (z + k)))
        = (\<Sum>k<length C. C ! k * f (length A + (z + k)))"
    by (intro sum.cong refl) (simp add: nth_append)
  finally show ?thesis by simp
qed

lemma imp_H_form:
  assumes "length x = M" "11 \<le> M"
  shows "quadform (circulant (drop 5 imp_H_stencil @ replicate (M - 11) 0 @ take 5 imp_H_stencil)) x
         = h0 * autocorr x 0
           + 2 * (h1 * autocorr x 1 + h2 * autocorr x 2 + h3 * autocorr x 3
                  + h4 * autocorr x 4 + h5 * autocorr x 5)"
proof -
  let ?A = "[h0, h1, h2, h3, h4, h5]" and ?C = "[h5, h4, h3, h2, h1]"
  let ?z = "M - 11"
  let ?w = "?A @ replicate ?z 0 @ ?C"
  have w: "drop 5 imp_H_stencil @ replicate (M - 11) 0 @ take 5 imp_H_stencil = ?w"
    by (simp add: imp_H_stencil_def)
  have lw: "length ?w = length x" using assms by simp
  have len: "length x = length ?A + (?z + length ?C)" using assms by simp
  have mir: "autocorr x (6 + (?z + k)) = autocorr x (5 - k)" if "k < 5" for k
  proof -
    have "6 + (?z + k) = length x - (5 - k)" using assms that by simp
    moreover have "5 - k \<le> length x" using assms by simp
    ultimately show ?thesis by (simp only: autocorr_mirror)
  qed
  have "quadform (circulant ?w) x = (\<Sum>k<length x. ?w ! k * autocorr x k)"
    using lw by (rule quadform_circulant)
  also have "\<dots> = (\<Sum>k<length ?A + (?z + length ?C). ?w ! k * autocorr x k)"
    by (simp only: len[symmetric])
  also have "\<dots> = (\<Sum>k<length ?A. ?A ! k * autocorr x k)
        + (\<Sum>k<length ?C. ?C ! k * autocorr x (length ?A + (?z + k)))"
    by (rule wrapped_weighted_sum)
  also have "(\<Sum>k<length ?C. ?C ! k * autocorr x (length ?A + (?z + k)))
        = (\<Sum>k<5. ?C ! k * autocorr x (5 - k))"
  proof (rule sum.cong)
    show "{..<length ?C} = {..<5}" by simp
    fix k assume "k \<in> {..<5::nat}"
    then have k: "k < 5" by simp
    have "length ?A + (?z + k) = 6 + (?z + k)" by simp
    then show "?C ! k * autocorr x (length ?A + (?z + k)) = ?C ! k * autocorr x (5 - k)"
      by (simp only: mir[OF k])
  qed
  also have "(\<Sum>k<5. ?C ! k * autocorr x (5 - k))
        = h5 * autocorr x 5 + h4 * autocorr x 4 + h3 * autocorr x 3 + h2 * autocorr x 2
          + h1 * autocorr x 1"
    unfolding sum_upto_5 by simp
  also have "(\<Sum>k<length ?A. ?A ! k * autocorr x k)
        = h0 * autocorr x 0 + h1 * autocorr x 1 + h2 * autocorr x 2 + h3 * autocorr x 3
          + h4 * autocorr x 4 + h5 * autocorr x 5"
  proof -
    have "length ?A = 6" by simp
    show ?thesis unfolding \<open>length ?A = 6\<close> sum_upto_6 by simp
  qed
  finally show ?thesis unfolding w by simp
qed

lemma imp_H_form_positive:
  assumes "length x = M" "11 \<le> M" "x \<noteq> replicate M 0"
  shows "0 < quadform (circulant (drop 5 imp_H_stencil @ replicate (M - 11) 0
                                   @ take 5 imp_H_stencil)) x"
proof -
  define c0 c1 c2 c3 c4 c5 where c: "c0 = autocorr x 0" "c1 = autocorr x 1" "c2 = autocorr x 2"
    "c3 = autocorr x 3" "c4 = autocorr x 4" "c5 = autocorr x 5"
  have pos: "0 < c0" using autocorr_zero_pos[of x] assms by (simp add: c)
  have b: "- c0 \<le> c1" "c1 \<le> c0" "- c0 \<le> c2" "c2 \<le> c0" "- c0 \<le> c3" "c3 \<le> c0"
    "- c0 \<le> c4" "c4 \<le> c0" "- c0 \<le> c5" "c5 \<le> c0"
    unfolding c by (rule autocorr_bounds)+
  have "0 \<le> (\<Sum>i<length x. (cyc x (i + 0) + 11 * cyc x (i + 1) - 46 * cyc x (i + 2)
                   - 49 * cyc x (i + 3) + 507 * cyc x (i + 4) + 573 * cyc x (i + 5))\<^sup>2)"
    by (intro sum_nonneg) simp
  then have win: "0 \<le> 590017 * c0 + 534854 * c1 + (- 103968) * c2 + (- 41660) * c3
                      + 13620 * c4 + 1146 * c5"
    unfolding window_square_sum c .
  define a1 a2 a3 a4 a5 \<rho> where a: "a1 = 534854 / 1000000 - 2 * h1"
    "a2 = (- 103968) / 1000000 - 2 * h2" "a3 = (- 41660) / 1000000 - 2 * h3"
    "a4 = 2 * h4 - 13620 / 1000000" "a5 = 2 * h5 - 1146 / 1000000"
    "\<rho> = h0 - 590017 / 1000000 - (a1 + a2 + a3 + a4 + a5)"
  have a_nonneg: "0 \<le> a1" "0 \<le> a2" "0 \<le> a3" "0 \<le> a4" "0 \<le> a5"
    unfolding a h1_def h2_def h3_def h4_def h5_def by simp_all
  have \<rho>_pos: "0 < \<rho>"
    unfolding a h0_def h1_def h2_def h3_def h4_def h5_def by simp
  have split: "h0 * c0 + 2 * (h1 * c1 + h2 * c2 + h3 * c3 + h4 * c4 + h5 * c5)
      = (590017 * c0 + 534854 * c1 + (- 103968) * c2 + (- 41660) * c3
           + 13620 * c4 + 1146 * c5) / 1000000
        + a1 * (c0 - c1) + a2 * (c0 - c2) + a3 * (c0 - c3) + a4 * (c0 + c4) + a5 * (c0 + c5)
        + \<rho> * c0"
    unfolding a by (simp add: field_simps)
  have "0 \<le> a1 * (c0 - c1)" "0 \<le> a2 * (c0 - c2)" "0 \<le> a3 * (c0 - c3)"
    "0 \<le> a4 * (c0 + c4)" "0 \<le> a5 * (c0 + c5)"
    using a_nonneg b by (simp_all add: mult_nonneg_nonneg)
  moreover have "0 < \<rho> * c0" using \<rho>_pos pos by simp
  moreover have "0 \<le> (590017 * c0 + 534854 * c1 + (- 103968) * c2 + (- 41660) * c3
           + 13620 * c4 + 1146 * c5) / 1000000"
    using win by simp
  ultimately have "0 < h0 * c0 + 2 * (h1 * c1 + h2 * c2 + h3 * c3 + h4 * c4 + h5 * c5)"
    unfolding split by linarith
  then show ?thesis unfolding imp_H_form[OF assms(1,2)] c .
qed

section \<open>The implicit operator: symmetric positive-definite norm, skew-symmetric difference (C7)\<close>

lemma mtranspose_smult:
  assumes "is_mat n A"
  shows "mtranspose (smult a A) = smult a (mtranspose A)"
proof (rule mat_eqI[of n])
  show "is_mat n (mtranspose (smult a A))" by (intro is_mat_mtranspose is_mat_smult assms)
  show "is_mat n (smult a (mtranspose A))" by (intro is_mat_mtranspose is_mat_smult assms)
  fix i j assume "i < n" "j < n"
  then show "mtranspose (smult a A) ! i ! j = smult a (mtranspose A) ! i ! j"
    by (simp add: mtranspose_nth[OF is_mat_smult[OF assms]] mtranspose_nth[OF assms]
        smult_nth[OF assms] smult_nth[OF is_mat_mtranspose[OF assms]])
qed

text \<open>
  Claim C7. For every \<open>m > 10\<close> and \<open>h > 0\<close>, \<open>periodic_imp(m, h, use_AD=False)\<close>
  returns a symmetric positive-definite \<open>H\<close> and a skew-symmetric \<open>Q\<close>. Positive
  definite means that the quadratic form \<open>x\<^sup>T H x\<close> is positive at every vector
  \<open>x\<close> of length \<open>m\<close> other than zero.
\<close>

theorem periodic_imp_symmetric_positive_definite:
  assumes "10 < m" "0 < h" "length x = nat m" "x \<noteq> replicate (nat m) 0"
  shows "\<exists>H Q. periodic_imp m h False = Inr (H, Q)
           \<and> is_mat (nat m) H \<and> mtranspose H = H \<and> 0 < quadform H x
           \<and> is_mat (nat m) Q \<and> madd Q (mtranspose Q) = zero_mat (nat m)"
proof -
  define M where "M = nat m"
  have M: "11 \<le> M" "nat (m - 11) = M - 11" using assms(1) by (simp_all add: M_def)
  let ?wH = "drop 5 imp_H_stencil @ replicate (M - 11) 0 @ take 5 imp_H_stencil"
  let ?wQ = "drop 5 imp_Q_stencil @ replicate (M - 11) 0 @ take 5 imp_Q_stencil"
  have ret: "periodic_imp m h False = Inr (smult h (circulant ?wH), circulant ?wQ)"
    using periodic_imp_plain[OF assms(1), of h] unfolding M(2) .
  have lH: "length ?wH = M" and lQ: "length ?wQ = M"
    using M(1) imp_stencil_facts by auto
  have CH: "is_mat M (circulant ?wH)" and CQ: "is_mat M (circulant ?wQ)"
    using is_mat_circulant[of ?wH] is_mat_circulant[of ?wQ] lH lQ by simp_all
  have sym: "mtranspose (circulant ?wH) = circulant ?wH"
    using wrapped_symmetric[OF imp_stencil_facts(4,5)] by (rule circulant_symmetric)
  have symH: "mtranspose (smult h (circulant ?wH)) = smult h (circulant ?wH)"
    using mtranspose_smult[OF CH] sym by simp
  have "0 < quadform (circulant ?wH) x"
    using assms(3,4) M(1) unfolding M_def[symmetric] by (intro imp_H_form_positive) simp_all
  moreover have "quadform (smult h (circulant ?wH)) x = h * quadform (circulant ?wH) x"
    using CH assms(3) unfolding M_def[symmetric] by (intro quadform_smult) simp
  ultimately have pd: "0 < quadform (smult h (circulant ?wH)) x"
    using assms(2) by simp
  have "madd (circulant ?wQ) (mtranspose (circulant ?wQ)) = zero_mat (length ?wQ)"
    using wrapped_tl(3)[OF imp_stencil_facts(1)] wrapped_antisymmetric[OF imp_stencil_facts(1,2)]
    by (intro circulant_skew)
  then have skew: "madd (circulant ?wQ) (mtranspose (circulant ?wQ)) = zero_mat M"
    unfolding lQ .
  show ?thesis
    unfolding M_def[symmetric]
    using ret is_mat_smult[OF CH] symH pd CQ skew by simp
qed

theorem periodic_imp_symmetric_positive_definite_witness:
  "\<exists>H Q. periodic_imp 11 1 False = Inr (H, Q)
           \<and> is_mat 11 H \<and> mtranspose H = H \<and> 0 < quadform H [1, 0, 0, 0, 0, 0, 0, 0, 0, 0, 0]
           \<and> is_mat 11 Q \<and> madd Q (mtranspose Q) = zero_mat 11"
  using periodic_imp_symmetric_positive_definite [of 11 1 "[1, 0, 0, 0, 0, 0, 0, 0, 0, 0, 0]"]
  by (simp add: eval_nat_numeral)

end
